theory Spec2Isabelle
  imports Main "HOL-Library.Sublist"
begin

section \<open>JavaScript strings and values\<close>

text \<open>
  A JavaScript string is a sequence of UTF-16 code units and \<open>.length\<close> counts them, so a
  string is modelled as a list of code units (natural numbers) and its length is the length
  of the list. String literals of the source are written with \<open>js\<close>, which maps an ASCII
  literal to its code units; the non-ASCII characters of the source are given by number:
  U+2022 (bullet), U+00B7 (middle dot), U+25AA and U+25AB (small squares), U+00B0 (degree).
\<close>

type_synonym codeunit = nat
type_synonym jsstring = "codeunit list"

definition js :: "string \<Rightarrow> jsstring" where
  "js s = map of_char s"

text \<open>
  The characters that \<open>String.prototype.trim\<close> removes and that \<open>\s\<close> matches in a regular
  expression: ECMAScript's WhiteSpace and LineTerminator code points.
\<close>

definition is_space :: "codeunit \<Rightarrow> bool" where
  "is_space c \<longleftrightarrow>
     (9 \<le> c \<and> c \<le> 13) \<or> c = 32 \<or> c = 160 \<or> c = 5760 \<or> (8192 \<le> c \<and> c \<le> 8202) \<or>
     c = 8232 \<or> c = 8233 \<or> c = 8239 \<or> c = 8287 \<or> c = 12288 \<or> c = 65279"

text \<open>\<open>s.trim()\<close>\<close>

definition trim :: "jsstring \<Rightarrow> jsstring" where
  "trim s = rev (dropWhile is_space (rev (dropWhile is_space s)))"

text \<open>
  The values \<open>formatDate\<close> can be handed. A number is \<open>NaN\<close> or a whole number of
  milliseconds; a \<open>Date\<close> object carries its time value, \<open>None\<close> for an Invalid Date.
\<close>

datatype jsnumber = NaN | Num int

datatype jsvalue =
    JUndefined
  | JNull
  | JBoolean bool
  | JNumber jsnumber
  | JString jsstring
  | JSymbol
  | JDate "int option"

text \<open>\<open>!v\<close> is true for the falsy values; every object, also an Invalid Date, is truthy.\<close>

fun falsy :: "jsvalue \<Rightarrow> bool" where
  "falsy JUndefined = True"
| "falsy JNull = True"
| "falsy (JBoolean b) = (\<not> b)"
| "falsy (JNumber NaN) = True"
| "falsy (JNumber (Num n)) = (n = 0)"
| "falsy (JString s) = (s = [])"
| "falsy JSymbol = False"
| "falsy (JDate t) = False"

section \<open>The Date Formatter\<close>

datatype exn = TypeError | RangeError

text \<open>\<open>TimeClip\<close>: a time value beyond 8.64e15 ms from the epoch is not a date.\<close>

definition TimeClip :: "int \<Rightarrow> int option" where
  "TimeClip t = (if \<bar>t\<bar> \<le> 8640000000000000 then Some t else None)"

text \<open>
  \<open>new Date(v)\<close> with one argument. A \<open>Date\<close> is copied, a string is parsed by the engine's
  \<open>Date.parse\<close> (the parameter \<open>parse\<close>, \<open>None\<close> where the string is not recognised), any
  other value is converted with \<open>ToNumber\<close>, which throws a TypeError for a symbol.
\<close>

fun new_Date :: "(jsstring \<Rightarrow> int option) \<Rightarrow> jsvalue \<Rightarrow> exn + int option" where
  "new_Date parse (JDate t) = Inr t"
| "new_Date parse (JString s) = Inr (case parse s of None \<Rightarrow> None | Some t \<Rightarrow> TimeClip t)"
| "new_Date parse JUndefined = Inr None"
| "new_Date parse JNull = Inr (Some 0)"
| "new_Date parse (JBoolean b) = Inr (Some (if b then 1 else 0))"
| "new_Date parse (JNumber NaN) = Inr None"
| "new_Date parse (JNumber (Num n)) = Inr (TimeClip n)"
| "new_Date parse JSymbol = Inl TypeError"

text \<open>
  \<open>d.toLocaleDateString('en-US', {month: 'short', day: 'numeric', hour: '2-digit',
  minute: '2-digit'})\<close>. For an Invalid Date the method returns the string
  \<open>"Invalid Date"\<close> and does not throw; for a valid date the text is the engine's locale
  data, the parameter \<open>fmt\<close>.
\<close>

definition toLocaleDateString :: "(int \<Rightarrow> jsstring) \<Rightarrow> int option \<Rightarrow> exn + jsstring" where
  "toLocaleDateString fmt d = (case d of None \<Rightarrow> Inr (js ''Invalid Date'') | Some t \<Rightarrow> Inr (fmt t))"

text \<open>
  \<^verbatim>\<open>
  formatDate(date) {
      if (!date) return 'Unknown';
      try {
          return new Date(date).toLocaleDateString('en-US', {...});
      } catch (error) {
          return 'Unknown';
      }
  }
  \<close>
  The result type has no exception: whatever the body of \<open>try\<close> throws is caught.
\<close>

definition formatDate :: "(jsstring \<Rightarrow> int option) \<Rightarrow> (int \<Rightarrow> jsstring) \<Rightarrow> jsvalue \<Rightarrow> jsstring" where
  "formatDate parse fmt date =
     (if falsy date then js ''Unknown''
      else case new_Date parse date of
             Inl e \<Rightarrow> js ''Unknown''
           | Inr d \<Rightarrow> (case toLocaleDateString fmt d of
                         Inl e \<Rightarrow> js ''Unknown''
                       | Inr s \<Rightarrow> s))"

section \<open>The Text Formatter: cleaning\<close>

text \<open>
  Regular expressions of the source are translated one by one into the function that
  computes what \<open>replace\<close> or \<open>split\<close> does with them. A global \<open>replace\<close> scans the
  string from the left; at each position it tries the pattern, and after a match it goes on
  behind the match. The patterns here never match the empty string. A scanning function
  takes the code unit before the current position where the pattern looks behind
  (\<open>^\<close>, \<open>\b\<close>); \<open>None\<close> is the start of the string.
\<close>

text \<open>
  Matching with the \<open>i\<close> flag and without the \<open>u\<close> flag compares canonicalised code
  units; a pattern character below 128 is then matched by its two ASCII cases only.
\<close>

definition canon :: "codeunit \<Rightarrow> codeunit" where
  "canon c = (if 97 \<le> c \<and> c \<le> 122 then c - 32 else c)"

fun ci_prefix :: "jsstring \<Rightarrow> jsstring \<Rightarrow> bool" where
  "ci_prefix [] s = True"
| "ci_prefix (p # ps) [] = False"
| "ci_prefix (p # ps) (c # cs) = (canon c = canon p \<and> ci_prefix ps cs)"

text \<open>
  The lookahead \<^verbatim>\<open>(?=\n\n|\n\s*\n|$)\<close>, without the \<open>m\<close> flag: two newlines, or a newline
  followed by white space that reaches another newline, or the end of the string.
\<close>

fun at_section_end :: "jsstring \<Rightarrow> bool" where
  "at_section_end [] = True"
| "at_section_end (c # cs) =
     (c = 10 \<and> ((case cs of [] \<Rightarrow> False | d # ds \<Rightarrow> d = 10) \<or> 10 \<in> set (takeWhile is_space cs)))"

text \<open>The lazy \<^verbatim>\<open>.*?\<close> (with the \<open>s\<close> flag) stops at the first position where the lookahead holds.\<close>

fun skip_to_section_end :: "jsstring \<Rightarrow> jsstring" where
  "skip_to_section_end [] = []"
| "skip_to_section_end (c # cs) =
     (if at_section_end (c # cs) then c # cs else skip_to_section_end cs)"

lemma length_skip_to_section_end: "length (skip_to_section_end s) \<le> length s"
  by (induction s) auto

text \<open>\<^verbatim>\<open>.replace(/usa\.gov.*?(?=\n\n|\n\s*\n|$)/gis, '')\<close>\<close>

function remove_usagov :: "jsstring \<Rightarrow> jsstring" where
  "remove_usagov [] = []"
| "remove_usagov (c # cs) =
     (if ci_prefix (js ''usa.gov'') (c # cs)
      then remove_usagov (skip_to_section_end (drop 7 (c # cs)))
      else c # remove_usagov cs)"
  by pat_completeness auto
termination
proof (relation "measure length")
  show "wf (measure length)" by simp
next
  fix c :: codeunit and cs :: jsstring
  have "length (skip_to_section_end (drop 7 (c # cs))) \<le> length (drop 7 (c # cs))"
    by (rule length_skip_to_section_end)
  then show "(skip_to_section_end (drop 7 (c # cs)), c # cs) \<in> measure length"
    by simp
next
  fix c :: codeunit and cs :: jsstring
  show "(cs, c # cs) \<in> measure length" by simp
qed

text \<open>
  With the \<open>m\<close> flag, \<open>^\<close> holds at the start of the string and behind a line terminator
  (LF, CR, U+2028, U+2029).
\<close>

definition is_line_terminator :: "codeunit \<Rightarrow> bool" where
  "is_line_terminator c \<longleftrightarrow> c = 10 \<or> c = 13 \<or> c = 8232 \<or> c = 8233"

definition at_line_start :: "codeunit option \<Rightarrow> bool" where
  "at_line_start prev = (case prev of None \<Rightarrow> True | Some p \<Rightarrow> is_line_terminator p)"

text \<open>The class \<^verbatim>\<open>[\<bullet>\<cdot>\-\*]\<close>: U+2022, U+00B7, hyphen, asterisk.\<close>

definition is_line_bullet :: "codeunit \<Rightarrow> bool" where
  "is_line_bullet c \<longleftrightarrow> c = 8226 \<or> c = 183 \<or> c = 45 \<or> c = 42"

text \<open>
  What \<^verbatim>\<open>\s*[\<bullet>\<cdot>\-\*]\s*[^\n]*$\<close> matches at the head of a string, and what is left behind
  the match. The first \<open>\s*\<close> must take all the white space, since a bullet follows it; the
  second takes all of it too (also newlines), \<^verbatim>\<open>[^\n]*\<close> then runs up to the next LF or
  the end, where \<open>$\<close> holds.
\<close>

definition bullet_line :: "jsstring \<Rightarrow> (jsstring \<times> jsstring) option" where
  "bullet_line s =
     (case dropWhile is_space s of
        [] \<Rightarrow> None
      | b # r \<Rightarrow>
          if is_line_bullet b
          then (let rest = dropWhile (\<lambda>c. c \<noteq> 10) (dropWhile is_space r)
                in Some (take (length s - length rest) s, rest))
          else None)"

lemma bullet_line_shorter: "bullet_line s = Some (m, rest) \<Longrightarrow> length rest < length s"
proof -
  assume a: "bullet_line s = Some (m, rest)"
  then obtain b r where br: "dropWhile is_space s = b # r"
    and rest: "rest = dropWhile (\<lambda>c. c \<noteq> 10) (dropWhile is_space r)"
    by (auto simp: bullet_line_def Let_def split: list.splits if_splits)
  have "length rest \<le> length r"
    unfolding rest
    by (meson length_dropWhile_le order_trans)
  moreover have "length (b # r) \<le> length s"
    using length_dropWhile_le [of is_space s] br by simp
  ultimately show ?thesis by simp
qed

text \<open>\<^verbatim>\<open>.replace(/^\s*[\<bullet>\<cdot>\-\*]\s*[^\n]*$/gm, '')\<close>\<close>

function remove_bullet_lines :: "codeunit option \<Rightarrow> jsstring \<Rightarrow> jsstring" where
  "remove_bullet_lines prev [] = []"
| "remove_bullet_lines prev (c # cs) =
     (if at_line_start prev
      then (case bullet_line (c # cs) of
              Some (m, rest) \<Rightarrow> remove_bullet_lines (Some (last m)) rest
            | None \<Rightarrow> c # remove_bullet_lines (Some c) cs)
      else c # remove_bullet_lines (Some c) cs)"
  by pat_completeness auto
termination
  by (relation "measure (\<lambda>(prev, s). length s)") (auto dest: bullet_line_shorter)

text \<open>The class \<^verbatim>\<open>[\<bullet>\<cdot>\<box>\<box>]\<close> of the next pattern: U+2022, U+00B7, U+25AA, U+25AB.\<close>

definition is_inline_bullet :: "codeunit \<Rightarrow> bool" where
  "is_inline_bullet c \<longleftrightarrow> c = 8226 \<or> c = 183 \<or> c = 9642 \<or> c = 9643"

text \<open>\<^verbatim>\<open>.replace(/\s*[\<bullet>\<cdot>\<box>\<box>]\s*/g, ' ')\<close>\<close>

function replace_inline_bullets :: "jsstring \<Rightarrow> jsstring" where
  "replace_inline_bullets [] = []"
| "replace_inline_bullets (c # cs) =
     (case dropWhile is_space (c # cs) of
        [] \<Rightarrow> c # replace_inline_bullets cs
      | b # r \<Rightarrow>
          if is_inline_bullet b
          then 32 # replace_inline_bullets (dropWhile is_space r)
          else c # replace_inline_bullets cs)"
  by pat_completeness auto
termination
proof (relation "measure length")
  show "wf (measure length)" by simp
next
  fix c :: codeunit and cs :: jsstring
  show "(cs, c # cs) \<in> measure length" by simp
next
  fix c b :: codeunit and cs r :: jsstring
  assume a: "dropWhile is_space (c # cs) = b # r"
  have "length (dropWhile is_space r) \<le> length r"
    by (rule length_dropWhile_le)
  moreover have "length (b # r) \<le> length (c # cs)"
    using length_dropWhile_le [of is_space "c # cs"] a by simp
  ultimately show "(dropWhile is_space r, c # cs) \<in> measure length"
    by simp
next
  fix c :: codeunit and cs :: jsstring
  show "(cs, c # cs) \<in> measure length" by simp
qed

text \<open>The class \<^verbatim>\<open>[ \t]\<close>.\<close>

definition is_blank :: "codeunit \<Rightarrow> bool" where
  "is_blank c \<longleftrightarrow> c = 32 \<or> c = 9"

text \<open>\<^verbatim>\<open>.replace(/[ \t]+/g, ' ')\<close>\<close>

function collapse_blanks :: "jsstring \<Rightarrow> jsstring" where
  "collapse_blanks [] = []"
| "collapse_blanks (c # cs) =
     (if is_blank c then 32 # collapse_blanks (dropWhile is_blank cs)
      else c # collapse_blanks cs)"
  by pat_completeness auto
termination
  by (relation "measure length") (auto simp: length_dropWhile_le less_Suc_eq_le)

text \<open>\<^verbatim>\<open>.replace(/\n[ \t]+/g, '\n')\<close>\<close>

function strip_line_indent :: "jsstring \<Rightarrow> jsstring" where
  "strip_line_indent [] = []"
| "strip_line_indent (c # cs) =
     (if c = 10 \<and> takeWhile is_blank cs \<noteq> []
      then 10 # strip_line_indent (dropWhile is_blank cs)
      else c # strip_line_indent cs)"
  by pat_completeness auto
termination
  by (relation "measure length") (auto simp: length_dropWhile_le less_Suc_eq_le)

text \<open>\<^verbatim>\<open>.replace(/\n{3,}/g, '\n\n')\<close>\<close>

function collapse_newlines :: "jsstring \<Rightarrow> jsstring" where
  "collapse_newlines [] = []"
| "collapse_newlines (c # cs) =
     (if 3 \<le> length (takeWhile (\<lambda>d. d = 10) (c # cs))
      then 10 # 10 # collapse_newlines (dropWhile (\<lambda>d. d = 10) (c # cs))
      else c # collapse_newlines cs)"
  by pat_completeness auto
termination
proof (relation "measure length")
  show "wf (measure length)" by simp
next
  fix c :: codeunit and cs :: jsstring
  assume "3 \<le> length (takeWhile (\<lambda>d. d = 10) (c # cs))"
  then have "c = 10" by (auto split: if_splits)
  then have "dropWhile (\<lambda>d. d = 10) (c # cs) = dropWhile (\<lambda>d. d = 10) cs" by simp
  then show "(dropWhile (\<lambda>d. d = 10) (c # cs), c # cs) \<in> measure length"
    by (simp add: length_dropWhile_le less_Suc_eq_le)
next
  fix c :: codeunit and cs :: jsstring
  show "(cs, c # cs) \<in> measure length" by simp
qed

text \<open>
  The cleaning chain of \<open>formatText\<close>, the value of \<open>cleanedText\<close>:
  \<^verbatim>\<open>
  text.replace(/usa\.gov.*?(?=\n\n|\n\s*\n|$)/gis, '')
      .replace(/^\s*[..]\s*[^\n]*$/gm, '')
      .replace(/\s*[..]\s*/g, ' ')
      .replace(/[ \t]+/g, ' ')
      .replace(/\n[ \t]+/g, '\n')
      .replace(/\n{3,}/g, '\n\n')
      .trim()
  \<close>
\<close>

definition cleanText :: "jsstring \<Rightarrow> jsstring" where
  "cleanText text =
     trim (collapse_newlines (strip_line_indent (collapse_blanks
       (replace_inline_bullets (remove_bullet_lines None (remove_usagov text))))))"

section \<open>The Text Formatter: segmentation\<close>

text \<open>
  \<open>s.split(re)\<close> with a pattern that cannot match the empty string: the pieces between the
  matches, found from the left; the empty string gives one empty piece, and a match at the
  end of the string leaves an empty last piece.
\<close>

text \<open>
  \<^verbatim>\<open>cleanedText.split(/\n\n+|\.{3,}/)\<close>: a separator is a run of two or more newlines or a
  run of three or more dots; both alternatives are greedy and take the whole run.
\<close>

function split_breaks :: "jsstring \<Rightarrow> jsstring list" where
  "split_breaks [] = [[]]"
| "split_breaks (c # cs) =
     (if c = 10 \<and> 2 \<le> length (takeWhile (\<lambda>d. d = 10) (c # cs))
      then [] # split_breaks (dropWhile (\<lambda>d. d = 10) cs)
      else if c = 46 \<and> 3 \<le> length (takeWhile (\<lambda>d. d = 46) (c # cs))
      then [] # split_breaks (dropWhile (\<lambda>d. d = 46) cs)
      else (case split_breaks cs of
              [] \<Rightarrow> [[c]]
            | p # ps \<Rightarrow> (c # p) # ps))"
  by pat_completeness auto
termination
  by (relation "measure length") (auto simp: length_dropWhile_le less_Suc_eq_le)

text \<open>\<^verbatim>\<open>s.split(/\.\s+/)\<close>: a separator is a dot and all the white space behind it.\<close>

function split_sentences :: "jsstring \<Rightarrow> jsstring list" where
  "split_sentences [] = [[]]"
| "split_sentences (c # cs) =
     (if c = 46 \<and> takeWhile is_space cs \<noteq> []
      then [] # split_sentences (dropWhile is_space cs)
      else (case split_sentences cs of
              [] \<Rightarrow> [[c]]
            | p # ps \<Rightarrow> (c # p) # ps))"
  by pat_completeness auto
termination
  by (relation "measure length") (auto simp: length_dropWhile_le less_Suc_eq_le)

text \<open>
  \<open>sentence.toUpperCase()\<close> follows the engine's Unicode case tables; the model takes it as
  the parameter \<open>up\<close> of every function that calls \<open>shouldStartNewParagraph\<close>, so that what
  is proved holds for any such function. \<open>toUpperCase_ascii\<close> is its restriction to ASCII
  letters, used where a concrete function is needed.
\<close>

definition toUpperCase_ascii :: "jsstring \<Rightarrow> jsstring" where
  "toUpperCase_ascii s = map canon s"

definition newSectionKeywords :: "jsstring list" where
  "newSectionKeywords =
     [js ''SYNOPSIS'', js ''DISCUSSION'', js ''TONIGHT'', js ''TOMORROW'', js ''SUNDAY'',
      js ''MONDAY'', js ''TUESDAY'', js ''WEDNESDAY'', js ''THURSDAY'', js ''FRIDAY'',
      js ''SATURDAY'', js ''MARINE'', js ''AVIATION'', js ''FIRE WEATHER'', js ''SHORT TERM'',
      js ''LONG TERM'', js ''NEAR TERM'', js ''EXTENDED'', js ''FORECAST'', js ''OUTLOOK'',
      js ''UPDATE'']"

text \<open>\<open>s.startsWith(k)\<close>\<close>

definition startsWith :: "jsstring \<Rightarrow> jsstring \<Rightarrow> bool" where
  "startsWith s k \<longleftrightarrow> take (length k) s = k"

text \<open>
  \<^verbatim>\<open>
  shouldStartNewParagraph(sentence, currentParagraph) {
      if (!currentParagraph) return false;
      const upperSentence = sentence.toUpperCase();
      return newSectionKeywords.some(keyword =>
          upperSentence.startsWith(keyword) ||
          upperSentence.startsWith(keyword + '...'));
  }
  \<close>
\<close>

definition shouldStartNewParagraph :: "(jsstring \<Rightarrow> jsstring) \<Rightarrow> jsstring \<Rightarrow> jsstring \<Rightarrow> bool" where
  "shouldStartNewParagraph up sentence currentParagraph =
     (if currentParagraph = [] then False
      else (let upperSentence = up sentence
            in list_ex (\<lambda>keyword. startsWith upperSentence keyword \<or>
                                   startsWith upperSentence (keyword @ js ''...''))
                 newSectionKeywords))"

text \<open>
  The loop of the sentence-based branch of \<open>formatText\<close>, over the pieces still to visit;
  \<open>i < sentences.length - 1\<close> holds when pieces remain behind the current one. The state
  is \<open>paragraphs\<close> and \<open>currentParagraph\<close>.
  \<^verbatim>\<open>
  for (let i = 0; i < sentences.length; i++) {
      let sentence = sentences[i].trim();
      if (!sentence) continue;
      if (i < sentences.length - 1) { sentence += '.'; }
      if (this.shouldStartNewParagraph(sentence, currentParagraph)) {
          if (currentParagraph.trim()) { paragraphs.push(currentParagraph.trim()); }
          currentParagraph = sentence;
      } else {
          currentParagraph += (currentParagraph ? ' ' : '') + sentence;
      }
      if (currentParagraph.split(/\.\s+/).length >= 3) {
          paragraphs.push(currentParagraph.trim());
          currentParagraph = '';
      }
  }
  \<close>
\<close>

fun sentence_loop ::
  "(jsstring \<Rightarrow> jsstring) \<Rightarrow> jsstring list \<Rightarrow> jsstring list \<Rightarrow> jsstring \<Rightarrow> jsstring list \<times> jsstring"
where
  "sentence_loop up [] paragraphs currentParagraph = (paragraphs, currentParagraph)"
| "sentence_loop up (raw # rest) paragraphs currentParagraph =
     (let sentence = trim raw in
      if sentence = [] then sentence_loop up rest paragraphs currentParagraph
      else
        let sentence = (if rest \<noteq> [] then sentence @ [46] else sentence);
            (paragraphs, currentParagraph) =
              (if shouldStartNewParagraph up sentence currentParagraph
               then ((if trim currentParagraph \<noteq> []
                      then paragraphs @ [trim currentParagraph] else paragraphs),
                     sentence)
               else (paragraphs,
                     currentParagraph @ (if currentParagraph \<noteq> [] then [32] else []) @ sentence))
        in if 3 \<le> length (split_sentences currentParagraph)
           then sentence_loop up rest (paragraphs @ [trim currentParagraph]) []
           else sentence_loop up rest paragraphs currentParagraph)"

text \<open>
  The sentence-based branch: the loop from empty state, then
  \<^verbatim>\<open>if (currentParagraph.trim()) { paragraphs.push(currentParagraph.trim()); }\<close>
\<close>

definition sentence_paragraphs :: "(jsstring \<Rightarrow> jsstring) \<Rightarrow> jsstring \<Rightarrow> jsstring list" where
  "sentence_paragraphs up cleanedText =
     (case sentence_loop up (split_sentences cleanedText) [] [] of
        (paragraphs, currentParagraph) \<Rightarrow>
          if trim currentParagraph \<noteq> [] then paragraphs @ [trim currentParagraph]
          else paragraphs)"

text \<open>
  The paragraphs before the minimum-count step (lines 138 to 180 of the source):
  \<^verbatim>\<open>
  let initialSplit = cleanedText.split(/\n\n+|\.{3,}/);
  if (initialSplit.length === 1) { ... sentence-based ... }
  else { paragraphs = initialSplit.map(p => p.trim()).filter(p => p.length > 15); }
  \<close>
\<close>

definition segment :: "(jsstring \<Rightarrow> jsstring) \<Rightarrow> jsstring \<Rightarrow> jsstring list" where
  "segment up cleanedText =
     (let initialSplit = split_breaks cleanedText
      in if length initialSplit = 1 then sentence_paragraphs up cleanedText
         else filter (\<lambda>p. 15 < length p) (map trim initialSplit))"

text \<open>
  \<open>forceParagraphBreaks\<close>: its loop and the final push.
  \<^verbatim>\<open>
  for (let i = 0; i < sentences.length; i++) {
      let sentence = sentences[i].trim();
      if (!sentence) continue;
      if (i < sentences.length - 1) { sentence += '.'; }
      if (currentParagraph && currentParagraph.split(/\.\s+/).length >= 2) {
          paragraphs.push(currentParagraph.trim());
          currentParagraph = sentence;
      } else {
          currentParagraph += (currentParagraph ? ' ' : '') + sentence;
      }
  }
  \<close>
\<close>

fun force_loop :: "jsstring list \<Rightarrow> jsstring list \<Rightarrow> jsstring \<Rightarrow> jsstring list \<times> jsstring" where
  "force_loop [] paragraphs currentParagraph = (paragraphs, currentParagraph)"
| "force_loop (raw # rest) paragraphs currentParagraph =
     (let sentence = trim raw in
      if sentence = [] then force_loop rest paragraphs currentParagraph
      else
        let sentence = (if rest \<noteq> [] then sentence @ [46] else sentence)
        in if currentParagraph \<noteq> [] \<and> 2 \<le> length (split_sentences currentParagraph)
           then force_loop rest (paragraphs @ [trim currentParagraph]) sentence
           else force_loop rest paragraphs
                  (currentParagraph @ (if currentParagraph \<noteq> [] then [32] else []) @ sentence))"

definition forceParagraphBreaks :: "jsstring \<Rightarrow> jsstring list" where
  "forceParagraphBreaks text =
     (case force_loop (split_sentences text) [] [] of
        (paragraphs, currentParagraph) \<Rightarrow>
          if trim currentParagraph \<noteq> [] then paragraphs @ [trim currentParagraph]
          else paragraphs)"

text \<open>
  \<open>breakLongParagraph\<close>: the loop that builds \<open>chunks\<close>, the final push, and the markup.
  \<^verbatim>\<open>
  if (currentChunk && (
      (currentChunk + ' ' + sentence).length > 350 ||
      this.shouldStartNewParagraph(sentence, currentChunk))) {
      chunks.push(currentChunk.trim());
      currentChunk = sentence;
  } else {
      currentChunk += (currentChunk ? ' ' : '') + sentence;
  }
  \<close>
\<close>

fun chunk_loop ::
  "(jsstring \<Rightarrow> jsstring) \<Rightarrow> jsstring list \<Rightarrow> jsstring list \<Rightarrow> jsstring \<Rightarrow> jsstring list \<times> jsstring"
where
  "chunk_loop up [] chunks currentChunk = (chunks, currentChunk)"
| "chunk_loop up (raw # rest) chunks currentChunk =
     (let sentence = trim raw in
      if sentence = [] then chunk_loop up rest chunks currentChunk
      else
        let sentence = (if rest \<noteq> [] then sentence @ [46] else sentence)
        in if currentChunk \<noteq> [] \<and>
              (350 < length (currentChunk @ [32] @ sentence) \<or>
               shouldStartNewParagraph up sentence currentChunk)
           then chunk_loop up rest (chunks @ [trim currentChunk]) sentence
           else chunk_loop up rest chunks
                  (currentChunk @ (if currentChunk \<noteq> [] then [32] else []) @ sentence))"

definition paragraph_chunks :: "(jsstring \<Rightarrow> jsstring) \<Rightarrow> jsstring \<Rightarrow> jsstring list" where
  "paragraph_chunks up paragraph =
     (case chunk_loop up (split_sentences paragraph) [] [] of
        (chunks, currentChunk) \<Rightarrow>
          if trim currentChunk \<noteq> [] then chunks @ [trim currentChunk] else chunks)"

text \<open>\<^verbatim>\<open>`<p>${chunk}</p>`\<close>\<close>

definition p_element :: "jsstring \<Rightarrow> jsstring" where
  "p_element s = js ''<p>'' @ s @ js ''</p>''"

definition breakLongParagraph :: "(jsstring \<Rightarrow> jsstring) \<Rightarrow> jsstring \<Rightarrow> jsstring" where
  "breakLongParagraph up paragraph = concat (map p_element (paragraph_chunks up paragraph))"

section \<open>The Text Formatter: highlighting\<close>

text \<open>\<open>\w\<close> is \<^verbatim>\<open>[A-Za-z0-9_]\<close> and \<open>\d\<close> is \<^verbatim>\<open>[0-9]\<close>.\<close>

definition is_word :: "codeunit \<Rightarrow> bool" where
  "is_word c \<longleftrightarrow> (65 \<le> c \<and> c \<le> 90) \<or> (97 \<le> c \<and> c \<le> 122) \<or> (48 \<le> c \<and> c \<le> 57) \<or> c = 95"

definition is_digit :: "codeunit \<Rightarrow> bool" where
  "is_digit c \<longleftrightarrow> 48 \<le> c \<and> c \<le> 57"

text \<open>
  \<open>\b\<close> holds between two positions when exactly one of the code units on its sides is a
  word character; the outside of the string counts as a non-word character.
\<close>

definition word_boundary :: "codeunit option \<Rightarrow> codeunit option \<Rightarrow> bool" where
  "word_boundary a b \<longleftrightarrow>
     (case a of None \<Rightarrow> False | Some c \<Rightarrow> is_word c) \<noteq>
     (case b of None \<Rightarrow> False | Some c \<Rightarrow> is_word c)"

definition first_unit :: "jsstring \<Rightarrow> codeunit option" where
  "first_unit s = (case s of [] \<Rightarrow> None | c # cs \<Rightarrow> Some c)"

text \<open>
  An alternation \<^verbatim>\<open>(A|B|...)\b\<close> at the head of \<open>s\<close>: the alternatives are tried in their
  order, each followed by the \<open>\b\<close>, and the first that succeeds gives the length of the
  match. An optional last letter \<^verbatim>\<open>X?\<close> is written as the two alternatives with and
  without it, in that order (the \<open>?\<close> is greedy).
\<close>

fun first_alternative :: "jsstring list \<Rightarrow> jsstring \<Rightarrow> nat option" where
  "first_alternative [] s = None"
| "first_alternative (a # as) s =
     (if a \<noteq> [] \<and> ci_prefix a s \<and>
         word_boundary (Some (last (take (length a) s))) (first_unit (drop (length a) s))
      then Some (length a)
      else first_alternative as s)"

text \<open>\<^verbatim>\<open>\b(A|B|...)\b\<close> at a position: \<open>prev\<close> is the code unit before it.\<close>

definition match_words :: "jsstring list \<Rightarrow> codeunit option \<Rightarrow> jsstring \<Rightarrow> nat option" where
  "match_words alts prev s =
     (if word_boundary prev (first_unit s) then first_alternative alts s else None)"

text \<open>
  \<^verbatim>\<open>\b(\d+\s*(?:A|B|...))\b\<close> at a position. The digits and the white space are taken
  whole: with fewer of either, the unit would have to begin with a digit or a white space
  character, and no unit does.
\<close>

definition match_measurement :: "jsstring list \<Rightarrow> codeunit option \<Rightarrow> jsstring \<Rightarrow> nat option" where
  "match_measurement units prev s =
     (if word_boundary prev (first_unit s) \<and> takeWhile is_digit s \<noteq> []
      then (let digits = takeWhile is_digit s;
                spaces = takeWhile is_space (dropWhile is_digit s)
            in case first_alternative units (dropWhile is_space (dropWhile is_digit s)) of
                 None \<Rightarrow> None
               | Some n \<Rightarrow> Some (length digits + length spaces + n))
      else None)"

text \<open>
  \<open>s.replace(re, opening + '$1' + closing)\<close> with the \<open>g\<close> flag, for a pattern given by
  its matcher; the group \<open>$1\<close> is the whole match in every pattern of the source.
\<close>

function highlight_pass ::
  "(codeunit option \<Rightarrow> jsstring \<Rightarrow> nat option) \<Rightarrow> jsstring \<Rightarrow> jsstring \<Rightarrow>
   codeunit option \<Rightarrow> jsstring \<Rightarrow> jsstring"
where
  "highlight_pass m opening closing prev [] = []"
| "highlight_pass m opening closing prev (c # cs) =
     (case m prev (c # cs) of
        Some (Suc n) \<Rightarrow>
          opening @ take (Suc n) (c # cs) @ closing @
          highlight_pass m opening closing (Some (last (take (Suc n) (c # cs)))) (drop n cs)
      | _ \<Rightarrow> c # highlight_pass m opening closing (Some c) cs)"
  by pat_completeness auto
termination
  by (relation "measure (\<lambda>(m, opening, closing, prev, s). length s)") auto

definition time_period_words :: "jsstring list" where
  "time_period_words =
     [js ''TODAY'', js ''TONIGHT'', js ''TOMORROW'', js ''THIS EVENING'', js ''THIS MORNING'',
      js ''THIS AFTERNOON'', js ''SUNDAY'', js ''MONDAY'', js ''TUESDAY'', js ''WEDNESDAY'',
      js ''THURSDAY'', js ''FRIDAY'', js ''SATURDAY'']"

definition weather_system_words :: "jsstring list" where
  "weather_system_words =
     [js ''LOW PRESSURE'', js ''HIGH PRESSURE'', js ''FRONT'', js ''TROUGH'', js ''RIDGE'',
      js ''STORM SYSTEM'', js ''WEATHER SYSTEM'', js ''CYCLONE'', js ''ANTICYCLONE'']"

definition weather_condition_words :: "jsstring list" where
  "weather_condition_words =
     [js ''RAIN'', js ''SNOW'', js ''THUNDERSTORMS'', js ''FOG'', js ''WIND'', js ''GALE'',
      js ''STORM'', js ''CLEAR'', js ''CLOUDY'', js ''PARTLY CLOUDY'', js ''OVERCAST'',
      js ''SHOWERS'', js ''DRIZZLE'', js ''VISIBILITY'', js ''PRECIPITATION'']"

definition marine_condition_words :: "jsstring list" where
  "marine_condition_words =
     [js ''SEAS'', js ''WAVES'', js ''SWELL'', js ''CHOPPY'', js ''ROUGH'', js ''CALM'',
      js ''SURF'', js ''BREAKERS'', js ''SIGNIFICANT WAVE HEIGHT'', js ''COMBINED SEAS'']"

text \<open>\<^verbatim>\<open>[NSEW]|NE|NW|SE|SW|NORTH|...\<close>: the class first, as its four members.\<close>

definition wind_direction_words :: "jsstring list" where
  "wind_direction_words =
     [js ''N'', js ''S'', js ''E'', js ''W'', js ''NE'', js ''NW'', js ''SE'', js ''SW'',
      js ''NORTH'', js ''SOUTH'', js ''EAST'', js ''WEST'', js ''NORTHEAST'', js ''NORTHWEST'',
      js ''SOUTHEAST'', js ''SOUTHWEST'']"

text \<open>\<^verbatim>\<open>MPH|KT|KNOTS?|FT|FEET|INCHES?|IN|MILES?|NAUTICAL MILES?\<close>\<close>

definition measurement_units :: "jsstring list" where
  "measurement_units =
     [js ''MPH'', js ''KT'', js ''KNOTS'', js ''KNOT'', js ''FT'', js ''FEET'', js ''INCHES'',
      js ''INCHE'', js ''IN'', js ''MILES'', js ''MILE'', js ''NAUTICAL MILES'',
      js ''NAUTICAL MILE'']"

text \<open>\<^verbatim>\<open>DEGREES?|\<degree>F?|\<degree>C?\<close>, the degree sign being U+00B0.\<close>

definition temperature_units :: "jsstring list" where
  "temperature_units =
     [js ''DEGREES'', js ''DEGREE'', [176, 70], [176], [176, 67], [176]]"

definition strong_open :: jsstring where \<open>strong_open = js ''<strong>''\<close>
definition strong_close :: jsstring where \<open>strong_close = js ''</strong>''\<close>
definition em_open :: jsstring where \<open>em_open = js ''<em>''\<close>
definition em_close :: jsstring where \<open>em_close = js ''</em>''\<close>
definition span_close :: jsstring where \<open>span_close = js ''</span>''\<close>
definition wind_direction_open :: jsstring where
  \<open>wind_direction_open = js ''<span class="wind-direction">''\<close>
definition weather_measurement_open :: jsstring where
  \<open>weather_measurement_open = js ''<span class="weather-measurement">''\<close>

text \<open>The seven \<open>replace\<close> calls at the end of \<open>formatText\<close>, in their order.\<close>

definition highlight :: "jsstring \<Rightarrow> jsstring" where
  "highlight formatted =
     highlight_pass (match_measurement temperature_units) weather_measurement_open span_close None
      (highlight_pass (match_measurement measurement_units) weather_measurement_open span_close None
        (highlight_pass (match_words wind_direction_words) wind_direction_open span_close None
          (highlight_pass (match_words marine_condition_words) em_open em_close None
            (highlight_pass (match_words weather_condition_words) em_open em_close None
              (highlight_pass (match_words weather_system_words) strong_open strong_close None
                (highlight_pass (match_words time_period_words) strong_open strong_close None
                   formatted))))))"

section \<open>The Text Formatter: formatText\<close>

text \<open>\<^verbatim>\<open>cleanedText.replace(/\n/g, '<br>')\<close>\<close>

definition newlines_to_br :: "jsstring \<Rightarrow> jsstring" where
  "newlines_to_br s = concat (map (\<lambda>c. if c = 10 then js ''<br>'' else [c]) s)"

text \<open>
  The string \<open>formatted\<close> before highlighting (lines 182 to 201 of the source):
  \<^verbatim>\<open>
  if (paragraphs.length === 1 && paragraphs[0].length > 600) {
      paragraphs = this.forceParagraphBreaks(paragraphs[0]);
  }
  let formatted = paragraphs.map(paragraph => {
          if (paragraph.length > 700) { return this.breakLongParagraph(paragraph); }
          return `<p>${paragraph}</p>`;
      }).join('');
  if (!formatted || paragraphs.length === 0) {
      formatted = `<p>${cleanedText.replace(/\n/g, '<br>')}</p>`;
  }
  \<close>
\<close>

definition final_paragraphs :: "(jsstring \<Rightarrow> jsstring) \<Rightarrow> jsstring \<Rightarrow> jsstring list" where
  "final_paragraphs up cleanedText =
     (let paragraphs = segment up cleanedText
      in if length paragraphs = 1 \<and> 600 < length (hd paragraphs)
         then forceParagraphBreaks (hd paragraphs)
         else paragraphs)"

definition assemble :: "(jsstring \<Rightarrow> jsstring) \<Rightarrow> jsstring \<Rightarrow> jsstring" where
  "assemble up cleanedText =
     (let paragraphs = final_paragraphs up cleanedText;
          formatted = concat (map (\<lambda>paragraph.
                         if 700 < length paragraph then breakLongParagraph up paragraph
                         else p_element paragraph) paragraphs)
      in if formatted = [] \<or> paragraphs = []
         then p_element (newlines_to_br cleanedText)
         else formatted)"

text \<open>
  \<^verbatim>\<open>
  formatText(text) {
      if (!text) return '';
      let cleanedText = ...;
      ...
      return formatted;
  }
  \<close>
\<close>

definition formatText :: "(jsstring \<Rightarrow> jsstring) \<Rightarrow> jsstring \<Rightarrow> jsstring" where
  "formatText up text = (if text = [] then [] else highlight (assemble up (cleanText text)))"

section \<open>The widget and its renderer\<close>













section \<open>Notions used in the statements\<close>

text \<open>Two newlines in a row, or three dots in a row, somewhere in the string.\<close>

fun has_break :: "jsstring \<Rightarrow> bool" where
  "has_break (a # b # r) =
     ((a = 10 \<and> b = 10) \<or> (a = 46 \<and> b = 46 \<and> (case r of [] \<Rightarrow> False | c # r' \<Rightarrow> c = 46)) \<or>
      has_break (b # r))"
| "has_break [a] = False"
| "has_break [] = False"

text \<open>A separator of the first tier: two or more newlines, or three or more dots.\<close>

definition break_run :: "jsstring \<Rightarrow> bool" where
  "break_run r \<longleftrightarrow> (2 \<le> length r \<and> list_all (\<lambda>d. d = 10) r) \<or>
                  (3 \<le> length r \<and> list_all (\<lambda>d. d = 46) r)"

text \<open>The pieces of a split put back together with the separators between them.\<close>

fun weave :: "jsstring list \<Rightarrow> jsstring list \<Rightarrow> jsstring" where
  "weave [] rs = []"
| "weave (p # ps) [] = p"
| "weave (p # ps) (r # rs) = p @ r @ weave ps rs"

text \<open>The characters of a string that are not white space, in their order.\<close>

definition nonspace :: "jsstring \<Rightarrow> jsstring" where
  "nonspace s = filter (\<lambda>c. \<not> is_space c) s"

text \<open>
  The text of a piece of markup: everything from a \<open><\<close> to the next \<open>>\<close> is a tag and is
  left out. \<open>inside\<close> tells whether the scan is within a tag.
\<close>

fun strip_tags_from :: "bool \<Rightarrow> jsstring \<Rightarrow> jsstring" where
  "strip_tags_from inside [] = []"
| "strip_tags_from inside (c # cs) =
     (if inside then strip_tags_from (c \<noteq> 62) cs
      else if c = 60 then strip_tags_from True cs
      else c # strip_tags_from False cs)"

definition strip_tags :: "jsstring \<Rightarrow> jsstring" where
  "strip_tags s = strip_tags_from False s"

text \<open>The visible text of markup, up to white space: tags stripped, white space left out.\<close>

definition visible_text :: "jsstring \<Rightarrow> jsstring" where
  "visible_text s = nonspace (strip_tags s)"

text \<open>
  The paragraph fragments that \<open>formatText\<close> emits before highlighting, as a list: the
  chunks of each paragraph longer than 700 characters, the other paragraphs whole, and in
  the fallback the cleaned text as one fragment.
\<close>

definition fragments :: "(jsstring \<Rightarrow> jsstring) \<Rightarrow> jsstring \<Rightarrow> jsstring list" where
  "fragments up cleanedText =
     (let frags = concat (map (\<lambda>paragraph.
                     if 700 < length paragraph then paragraph_chunks up paragraph
                     else [paragraph]) (final_paragraphs up cleanedText))
      in if frags = [] then [newlines_to_br cleanedText] else frags)"

text \<open>
  What each of the three loops makes of the pieces of \<open>split(/\.\s+/)\<close> before it groups
  them: a piece is trimmed, an empty one is skipped, and a dot is put back behind every
  piece but the last. These are the sentences.
\<close>

fun prepare_sentences :: "jsstring list \<Rightarrow> jsstring list" where
  "prepare_sentences [] = []"
| "prepare_sentences (raw # rest) =
     (if trim raw = [] then prepare_sentences rest
      else (if rest \<noteq> [] then trim raw @ [46] else trim raw) # prepare_sentences rest)"

definition sentences_of :: "jsstring \<Rightarrow> jsstring list" where
  "sentences_of s = prepare_sentences (split_sentences s)"

text \<open>Sentences joined by single spaces, as the loops build a paragraph.\<close>

fun join_sp :: "jsstring list \<Rightarrow> jsstring" where
  "join_sp [] = []"
| "join_sp [s] = s"
| "join_sp (s # t # r) = s @ 32 # join_sp (t # r)"

text \<open>The test of \<open>shouldStartNewParagraph\<close> on the sentence alone.\<close>

definition keyword_start :: "(jsstring \<Rightarrow> jsstring) \<Rightarrow> jsstring \<Rightarrow> bool" where
  "keyword_start up sentence =
     list_ex (\<lambda>keyword. startsWith (up sentence) keyword \<or>
                          startsWith (up sentence) (keyword @ js ''...''))
       newSectionKeywords"

text \<open>No dot in the string is followed by white space: \<^verbatim>\<open>/\.\s+/\<close> has no match in it.\<close>

fun no_dot_space :: "jsstring \<Rightarrow> bool" where
  "no_dot_space (c # d # r) = (\<not> (c = 46 \<and> is_space d) \<and> no_dot_space (d # r))"
| "no_dot_space [c] = True"
| "no_dot_space [] = True"

text \<open>
  A sentence as the loops see it: not empty, no white space at either end and no sentence
  break inside. A sentence made from a piece that is not the last one also ends with the
  dot that was put back.
\<close>

definition good_sentence :: "jsstring \<Rightarrow> bool" where
  "good_sentence s \<longleftrightarrow> s \<noteq> [] \<and> \<not> is_space (hd s) \<and> \<not> is_space (last s) \<and> no_dot_space s"

definition full_stop :: "jsstring \<Rightarrow> bool" where
  "full_stop s \<longleftrightarrow> s \<noteq> [] \<and> last s = 46 \<and> good_sentence (butlast s)"

text \<open>
  The three loops on the level of sentences: each keeps closed groups and a current
  group. A sentence begins a new group when the current one is not empty and \<open>pre\<close>
  holds; the current group is closed behind a sentence when \<open>post\<close> holds.
\<close>

fun group_loop ::
  "(jsstring list \<Rightarrow> jsstring \<Rightarrow> bool) \<Rightarrow> (jsstring list \<Rightarrow> bool) \<Rightarrow> jsstring list \<Rightarrow>
   jsstring list list \<Rightarrow> jsstring list \<Rightarrow> jsstring list list \<times> jsstring list"
where
  "group_loop pre post [] G g = (G, g)"
| "group_loop pre post (s # ss) G g =
     (if g \<noteq> [] \<and> pre g s
      then (if post [s] then group_loop pre post ss (G @ [g] @ [[s]]) []
            else group_loop pre post ss (G @ [g]) [s])
      else (if post (g @ [s]) then group_loop pre post ss (G @ [g @ [s]]) []
            else group_loop pre post ss G (g @ [s])))"

definition groups_of ::
  "(jsstring list \<Rightarrow> jsstring \<Rightarrow> bool) \<Rightarrow> (jsstring list \<Rightarrow> bool) \<Rightarrow> jsstring list \<Rightarrow>
   jsstring list list"
where
  "groups_of pre post ss =
     (case group_loop pre post ss [] [] of (G, g) \<Rightarrow> if g \<noteq> [] then G @ [g] else G)"

text \<open>
  A text of \<open>n + 1\<close> lines with blank lines between them, each line being \<open>b\<close> and a dot;
  used as a long input all of whose pieces are short.
\<close>

fun blocks :: "jsstring \<Rightarrow> nat \<Rightarrow> jsstring" where
  "blocks b 0 = b @ [46]"
| "blocks b (Suc n) = b @ 46 # 10 # 10 # blocks b n"

text \<open>Lower-case letters other than \<open>u\<close>: text that no pattern of the cleaning touches.\<close>

definition plain_letters :: "jsstring \<Rightarrow> bool" where
  "plain_letters b \<longleftrightarrow> b \<noteq> [] \<and> list_all (\<lambda>c. 97 \<le> c \<and> c \<le> 122 \<and> c \<noteq> 117) b"

text \<open>A string that \<open>trim\<close> leaves as it is and that is not empty.\<close>

definition trimmed :: "jsstring \<Rightarrow> bool" where
  "trimmed p \<longleftrightarrow> p \<noteq> [] \<and> \<not> is_space (hd p) \<and> \<not> is_space (last p)"

text \<open>
  Markup over a list of tags \<open>V\<close>: a string made of characters other than \<open><\<close> and of
  tags from \<open>V\<close>.
\<close>

inductive wf_markup :: "jsstring list \<Rightarrow> jsstring \<Rightarrow> bool" for V :: "jsstring list" where
  wf_empty: "wf_markup V []"
| wf_char: "c \<noteq> 60 \<Longrightarrow> wf_markup V s \<Longrightarrow> wf_markup V (c # s)"
| wf_tag: "v \<in> set V \<Longrightarrow> wf_markup V s \<Longrightarrow> wf_markup V (v @ s)"

text \<open>A tag: \<open><\<close>, then characters other than \<open><\<close> and \<open>>\<close>, then \<open>>\<close>.\<close>

definition is_tag :: "jsstring \<Rightarrow> bool" where
  "is_tag v \<longleftrightarrow> (\<exists>body. v = 60 # body @ [62] \<and> 60 \<notin> set body \<and> 62 \<notin> set body)"

text \<open>A matcher whose matches are not empty, lie within the string and hold no \<open><\<close>.\<close>

definition local_matcher :: "(codeunit option \<Rightarrow> jsstring \<Rightarrow> nat option) \<Rightarrow> bool" where
  "local_matcher m \<longleftrightarrow>
     (\<forall>prev s n. m prev s = Some n \<longrightarrow> 0 < n \<and> n \<le> length s \<and> 60 \<notin> set (take n s))"

text \<open>A tag in which, and at the start of which, a pattern finds no match.\<close>

definition inert :: "(codeunit option \<Rightarrow> jsstring \<Rightarrow> nat option) \<Rightarrow> jsstring \<Rightarrow> bool" where
  "inert m v \<longleftrightarrow>
     (\<forall>opening closing prev r.
        highlight_pass m opening closing prev (v @ r) =
        v @ highlight_pass m opening closing (Some 62) r)"

text \<open>The tags that are in the markup after the successive steps of \<open>formatText\<close>.\<close>

definition paragraph_tags :: "jsstring list" where
  "paragraph_tags = [js ''<p>'', js ''</p>'', js ''<br>'']"

definition strong_tags :: "jsstring list" where
  "strong_tags = strong_open # strong_close # paragraph_tags"

definition em_tags :: "jsstring list" where
  "em_tags = em_open # em_close # strong_tags"

definition direction_tags :: "jsstring list" where
  "direction_tags = wind_direction_open # span_close # em_tags"

definition measurement_tags :: "jsstring list" where
  "measurement_tags = weather_measurement_open # span_close # direction_tags"

text \<open>The pieces of a sentence split with a dot put back between them.\<close>

fun dotted_concat :: "jsstring list \<Rightarrow> jsstring" where
  "dotted_concat [] = []"
| "dotted_concat [p] = p"
| "dotted_concat (p # q # r) = p @ 46 # dotted_concat (q # r)"

text \<open>Three dots in a row somewhere in the string.\<close>

fun three_dots :: "jsstring \<Rightarrow> bool" where
  "three_dots (a # b # c # r) = ((a = 46 \<and> b = 46 \<and> c = 46) \<or> three_dots (b # c # r))"
| "three_dots [a, b] = False"
| "three_dots [a] = False"
| "three_dots [] = False"

text \<open>
  No piece of \<open>split(/\.\s+/)\<close> is empty after trimming, so that the loops skip none of
  them (\<open>if (!sentence) continue\<close>).
\<close>

definition no_blank_sentence :: "jsstring \<Rightarrow> bool" where
  "no_blank_sentence s \<longleftrightarrow> list_all (\<lambda>q. trim q \<noteq> []) (split_sentences s)"

text \<open>
  A line of \<open>n + 1\<close> sentences, each being \<open>b\<close> and a dot, with single spaces between
  them; used as a long paragraph of short sentences.
\<close>

fun sentence_line :: "jsstring \<Rightarrow> nat \<Rightarrow> jsstring" where
  "sentence_line b 0 = b @ [46]"
| "sentence_line b (Suc n) = b @ 46 # 32 # sentence_line b n"

text \<open>
  Notions for the cleaned text. \<open>thinned a s\<close>: the string \<open>s\<close> arises from \<open>a\<close> by
  keeping characters, by putting a white-space character in the place of a part, and by
  deleting a part in front of white space or of the end. Every step of the cleaning but
  \<open>trim\<close> is of this kind.
\<close>

inductive thinned :: "jsstring \<Rightarrow> jsstring \<Rightarrow> bool" where
  thinned_Nil: "thinned [] []"
| thinned_keep: "thinned a s \<Longrightarrow> thinned (c # a) (c # s)"
| thinned_space: "suffix a' a \<Longrightarrow> is_space w \<Longrightarrow> thinned a' s \<Longrightarrow> thinned a (w # s)"
| thinned_delete: "suffix a' a \<Longrightarrow> a' = [] \<or> is_space (hd a') \<Longrightarrow> thinned a' s \<Longrightarrow> thinned a s"






section \<open>Properties\<close>

text \<open>
  C3. The claim is that every invalid or unparseable date value gives exactly "Unknown".
  On an Invalid Date object, which is what \<open>render\<close> passes when \<open>updated\<close> is missing or
  cannot be parsed, the code returns "Invalid Date": the object is truthy and
  \<open>toLocaleDateString\<close> does not throw, so neither the guard nor the \<open>catch\<close> is reached.
\<close>

theorem formatDate_invalid_date:
  "formatDate parse fmt (JDate None) = js ''Invalid Date'' \<and>
   formatDate parse fmt (JDate None) \<noteq> js ''Unknown''"
  by (simp add: formatDate_def toLocaleDateString_def js_def)

subsection \<open>Facts about white space and \<open>trim\<close>\<close>

lemma trim_all_space: "list_all is_space s \<Longrightarrow> trim s = []"
proof -
  assume "list_all is_space s"
  then have "\<forall>c\<in>set s. is_space c"
    by (simp add: list_all_iff)
  then have d: "dropWhile is_space s = []"
    by (simp only: dropWhile_eq_Nil_conv)
  show ?thesis unfolding trim_def d by simp
qed






subsection \<open>Equations for evaluating the model on concrete strings\<close>

text \<open>
  The defining equations test conjunctions and disjunctions whose parts the simplifier
  would all evaluate; these forms decide on the first test.
\<close>

lemma is_space_eval:
  "is_space c = (if c < 160 then (if c < 32 then 9 \<le> c \<and> c \<le> 13 else c = 32)
     else c = 160 \<or> c = 5760 \<or> (8192 \<le> c \<and> c \<le> 8202) \<or>
     c = 8232 \<or> c = 8233 \<or> c = 8239 \<or> c = 8287 \<or> c = 12288 \<or> c = 65279)"
  by (auto simp: is_space_def)

lemma is_word_eval:
  "is_word c = (if c < 65 then (if c < 48 then False else c \<le> 57)
     else if c \<le> 90 then True else if c < 97 then c = 95 else c \<le> 122)"
  by (auto simp: is_word_def)

lemma ci_prefix_eval:
  "ci_prefix (p # ps) (c # cs) = (if canon c = canon p then ci_prefix ps cs else False)"
  by simp

lemma first_alternative_eval:
  "first_alternative (a # as) s =
     (if ci_prefix a s
      then (if a \<noteq> [] \<and>
               word_boundary (Some (last (take (length a) s))) (first_unit (drop (length a) s))
            then Some (length a) else first_alternative as s)
      else first_alternative as s)"
  by simp

lemma split_breaks_eval:
  "split_breaks (c # cs) =
     (if c = 10 then
        (if 2 \<le> length (takeWhile (\<lambda>d. d = 10) (c # cs))
         then [] # split_breaks (dropWhile (\<lambda>d. d = 10) cs)
         else (case split_breaks cs of [] \<Rightarrow> [[c]] | p # ps \<Rightarrow> (c # p) # ps))
      else if c = 46 then
        (if 3 \<le> length (takeWhile (\<lambda>d. d = 46) (c # cs))
         then [] # split_breaks (dropWhile (\<lambda>d. d = 46) cs)
         else (case split_breaks cs of [] \<Rightarrow> [[c]] | p # ps \<Rightarrow> (c # p) # ps))
      else (case split_breaks cs of [] \<Rightarrow> [[c]] | p # ps \<Rightarrow> (c # p) # ps))"
  by simp

lemma split_sentences_eval:
  "split_sentences (c # cs) =
     (if c = 46 then
        (if takeWhile is_space cs \<noteq> []
         then [] # split_sentences (dropWhile is_space cs)
         else (case split_sentences cs of [] \<Rightarrow> [[c]] | p # ps \<Rightarrow> (c # p) # ps))
      else (case split_sentences cs of [] \<Rightarrow> [[c]] | p # ps \<Rightarrow> (c # p) # ps))"
  by simp

lemma strip_line_indent_eval:
  "strip_line_indent (c # cs) =
     (if c = 10 then
        (if takeWhile is_blank cs \<noteq> [] then 10 # strip_line_indent (dropWhile is_blank cs)
         else c # strip_line_indent cs)
      else c # strip_line_indent cs)"
  by simp

lemma collapse_newlines_eval:
  "collapse_newlines (c # cs) =
     (if c = 10 then
        (if 3 \<le> length (takeWhile (\<lambda>d. d = 10) (c # cs))
         then 10 # 10 # collapse_newlines (dropWhile (\<lambda>d. d = 10) (c # cs))
         else c # collapse_newlines cs)
      else c # collapse_newlines cs)"
  by simp

lemmas eval_simps = js_def canon_def is_space_eval is_blank_def is_word_eval is_digit_def
  is_line_terminator_def is_line_bullet_def is_inline_bullet_def at_line_start_def
  word_boundary_def first_unit_def ci_prefix_eval first_alternative_eval
  split_breaks_eval split_sentences_eval strip_line_indent_eval collapse_newlines_eval
  bullet_line_def trim_def

lemmas eval_del = ci_prefix.simps(3) first_alternative.simps(2) split_breaks.simps(2)
  split_sentences.simps(2) strip_line_indent.simps(2) collapse_newlines.simps(2)

lemmas highlight_defs = highlight_def match_words_def match_measurement_def
  time_period_words_def weather_system_words_def weather_condition_words_def
  marine_condition_words_def wind_direction_words_def measurement_units_def
  temperature_units_def strong_open_def strong_close_def em_open_def em_close_def
  span_close_def wind_direction_open_def weather_measurement_open_def

lemmas assemble_defs = assemble_def final_paragraphs_def segment_def sentence_paragraphs_def
  shouldStartNewParagraph_def p_element_def newlines_to_br_def

subsection \<open>White-space-only text\<close>

lemma is_space_not_usagov_start: "is_space c \<Longrightarrow> canon c \<noteq> 85"
  by (auto simp: is_space_def canon_def)

lemma remove_usagov_spaces: "list_all is_space s \<Longrightarrow> remove_usagov s = s"
proof (induction s)
  case Nil
  then show ?case by simp
next
  case (Cons c cs)
  then have "canon c \<noteq> 85" by (simp add: is_space_not_usagov_start)
  then have "\<not> ci_prefix (js ''usa.gov'') (c # cs)"
    by (simp add: js_def canon_def)
  with Cons show ?case by simp
qed

lemma dropWhile_spaces: "list_all is_space s \<Longrightarrow> dropWhile is_space s = []"
  by (induction s) auto

lemma bullet_line_spaces: "list_all is_space s \<Longrightarrow> bullet_line s = None"
  by (simp add: bullet_line_def dropWhile_spaces)

lemma remove_bullet_lines_spaces: "list_all is_space s \<Longrightarrow> remove_bullet_lines prev s = s"
proof (induction s arbitrary: prev)
  case Nil
  then show ?case by simp
next
  case (Cons c cs)
  from Cons.prems have "bullet_line (c # cs) = None" by (rule bullet_line_spaces)
  with Cons show ?case by simp
qed

lemma replace_inline_bullets_spaces: "list_all is_space s \<Longrightarrow> replace_inline_bullets s = s"
proof (induction s)
  case Nil
  then show ?case by simp
next
  case (Cons c cs)
  from Cons.prems have d: "dropWhile is_space cs = []" by (simp add: dropWhile_spaces)
  from Cons.prems have c: "is_space c" by simp
  from Cons.IH Cons.prems show ?case by (simp add: d c)
qed

lemma list_all_dropWhile: "list_all P s \<Longrightarrow> list_all P (dropWhile Q s)"
  by (induction s) auto

lemma collapse_blanks_spaces: "list_all is_space s \<Longrightarrow> list_all is_space (collapse_blanks s)"
proof (induction s rule: collapse_blanks.induct)
  case 1
  then show ?case by simp
next
  case (2 c cs)
  have sp: "is_space 32" by (simp add: is_space_def)
  from 2 sp show ?case by (auto simp: list_all_dropWhile)
qed

lemma strip_line_indent_spaces: "list_all is_space s \<Longrightarrow> list_all is_space (strip_line_indent s)"
proof (induction s rule: strip_line_indent.induct)
  case 1
  then show ?case by simp
next
  case (2 c cs)
  have sp: "is_space 10" by (simp add: is_space_def)
  from 2 sp show ?case by (auto simp: list_all_dropWhile)
qed

lemma collapse_newlines_spaces: "list_all is_space s \<Longrightarrow> list_all is_space (collapse_newlines s)"
proof (induction s rule: collapse_newlines.induct)
  case 1
  then show ?case by simp
next
  case (2 c cs)
  show ?case
  proof (cases "3 \<le> length (takeWhile (\<lambda>d. d = 10) (c # cs))")
    case True
    have sp: "is_space 10" by (simp add: is_space_def)
    have "list_all is_space (dropWhile (\<lambda>d. d = 10) (c # cs))"
      using "2.prems" by (rule list_all_dropWhile)
    with True "2.IH"(1) have "list_all is_space (collapse_newlines (dropWhile (\<lambda>d. d = 10) (c # cs)))"
      by blast
    with True sp show ?thesis by (simp del: dropWhile.simps takeWhile.simps)
  next
    case False
    with 2 show ?thesis by simp
  qed
qed

lemma cleanText_spaces: "list_all is_space s \<Longrightarrow> cleanText s = []"
  by (simp add: cleanText_def remove_usagov_spaces remove_bullet_lines_spaces
      replace_inline_bullets_spaces collapse_blanks_spaces strip_line_indent_spaces
      collapse_newlines_spaces trim_all_space)


lemma assemble_empty: \<open>assemble up [] = js ''<p></p>''\<close>
  by (simp add: assemble_defs eval_simps del: eval_del)

lemma highlight_empty_paragraph: \<open>highlight (js ''<p></p>'') = js ''<p></p>''\<close>
  by (simp add: highlight_defs eval_simps del: eval_del)

text \<open>
  C10. For a non-empty text of white space only, \<open>formatText\<close> returns \<open><p></p>\<close>: the
  cleaned text is empty, no paragraph is found and the fallback wraps the empty string. The
  empty text gives the empty string, so the two are told apart.
\<close>

theorem formatText_white_space_only:
  assumes "text \<noteq> []" and "list_all is_space text"
  shows "formatText up text = js ''<p></p>'' \<and> formatText up text \<noteq> formatText up []"
proof -
  have "cleanText text = []"
    using assms(2) by (rule cleanText_spaces)
  with assms(1) have "formatText up text = js ''<p></p>''"
    by (simp add: formatText_def assemble_empty highlight_empty_paragraph)
  moreover have "formatText up [] = []"
    by (simp add: formatText_def)
  moreover have "js ''<p></p>'' \<noteq> []"
    by (simp add: js_def)
  ultimately show ?thesis by simp
qed

theorem formatText_white_space_only_witness:
  "formatText toUpperCase_ascii [32, 9, 10, 160] = js ''<p></p>'' \<and>
   formatText toUpperCase_ascii [32, 9, 10, 160] \<noteq> formatText toUpperCase_ascii []"
proof -
  have "[32, 9, 10, 160] \<noteq> ([] :: jsstring)"
    by simp
  moreover have "list_all is_space [32, 9, 10, 160]"
    by (simp add: is_space_def)
  ultimately show ?thesis
    by (rule formatText_white_space_only)
qed

lemma c7_clean:
  "cleanText (js ''LOW PRESSURE moves through TONIGHT with WINDS to 25 KT.'') =
   js ''LOW PRESSURE moves through TONIGHT with WINDS to 25 KT.''"
  by (simp add: cleanText_def eval_simps del: eval_del)

lemma c7_assemble:
  "assemble up (js ''LOW PRESSURE moves through TONIGHT with WINDS to 25 KT.'') =
   js ''<p>LOW PRESSURE moves through TONIGHT with WINDS to 25 KT.</p>''"
  by (simp add: assemble_defs eval_simps del: eval_del)

lemma c7_highlight:
  \<open>highlight (js ''<p>LOW PRESSURE moves through TONIGHT with WINDS to 25 KT.</p>'') =
   js ''<p><strong>LOW PRESSURE</strong> moves through <strong>TONIGHT</strong> with WINDS to <span class="weather-measurement">25 KT</span>.</p>''\<close>
  by (simp add: highlight_defs eval_simps del: eval_del)

text \<open>
  C7. For the text "LOW PRESSURE moves through TONIGHT with WINDS to 25 KT." the output
  wraps "LOW PRESSURE" and "TONIGHT" in \<open><strong>\<close> and "25 KT" in a
  weather-measurement \<open><span>\<close>; "WINDS" is left as it is, the pattern asks for "WIND" as a
  whole word.
\<close>

theorem formatText_low_pressure_example:
  \<open>formatText up (js ''LOW PRESSURE moves through TONIGHT with WINDS to 25 KT.'') =
   js ''<p><strong>LOW PRESSURE</strong> moves through <strong>TONIGHT</strong> with WINDS to <span class="weather-measurement">25 KT</span>.</p>''\<close>
proof -
  have "js ''LOW PRESSURE moves through TONIGHT with WINDS to 25 KT.'' \<noteq> []"
    by (simp add: js_def)
  then show ?thesis
    by (simp only: formatText_def c7_clean c7_assemble c7_highlight if_False)
qed

subsection \<open>Structural breaks\<close>

lemma split_breaks_not_Nil [simp]: "split_breaks s \<noteq> []"
  by (induction s rule: split_breaks.induct) (auto split: list.splits)


lemma run_length_two: "2 \<le> length (takeWhile (\<lambda>d. d = x) (c # cs)) \<longleftrightarrow> c = x \<and> (\<exists>r. cs = x # r)"
  by (cases cs) auto

lemma run_length_three:
  "3 \<le> length (takeWhile (\<lambda>d. d = x) (c # cs)) \<longleftrightarrow> c = x \<and> (\<exists>r. cs = x # x # r)"
proof (cases cs)
  case Nil
  then show ?thesis by simp
next
  case (Cons d ds)
  then show ?thesis by (cases ds) auto
qed

lemma has_break_Cons:
  "has_break (c # s) \<longleftrightarrow>
     (c = 10 \<and> 2 \<le> length (takeWhile (\<lambda>d. d = 10) (c # s))) \<or>
     (c = 46 \<and> 3 \<le> length (takeWhile (\<lambda>d. d = 46) (c # s))) \<or> has_break s"
proof (cases s)
  case Nil
  then show ?thesis by simp
next
  case (Cons b r)
  then show ?thesis
    by (cases r) auto
qed

lemma split_breaks_no_break: "\<not> has_break s \<Longrightarrow> split_breaks s = [s]"
proof (induction s)
  case Nil
  then show ?case by simp
next
  case (Cons c cs)
  from Cons.prems have nb: "\<not> has_break cs"
    and n1: "\<not> (c = 10 \<and> 2 \<le> length (takeWhile (\<lambda>d. d = 10) (c # cs)))"
    and n2: "\<not> (c = 46 \<and> 3 \<le> length (takeWhile (\<lambda>d. d = 46) (c # cs)))"
    by (simp_all only: has_break_Cons) blast+
  from nb Cons.IH have "split_breaks cs = [cs]" by simp
  with n1 n2 show ?case
    by (simp del: takeWhile.simps)
qed


lemma weave_Cons_head: "weave ((c # p) # ps) rs = c # weave (p # ps) rs"
  by (cases rs) auto


lemma split_breaks_weave:
  "\<exists>seps. length (split_breaks s) = Suc (length seps) \<and> list_all break_run seps \<and>
          weave (split_breaks s) seps = s"
proof (induction s rule: split_breaks.induct)
  case 1
  have "length (split_breaks []) = Suc (length ([] :: jsstring list)) \<and>
        list_all break_run [] \<and> weave (split_breaks []) [] = []"
    by simp
  then show ?case by blast
next
  case (2 c cs)
  let ?nl = "c = 10 \<and> 2 \<le> length (takeWhile (\<lambda>d. d = 10) (c # cs))"
  let ?dots = "c = 46 \<and> 3 \<le> length (takeWhile (\<lambda>d. d = 46) (c # cs))"
  consider (nl) ?nl | (dots) "\<not> ?nl" ?dots | (none) "\<not> ?nl" "\<not> ?dots"
    by blast
  then show ?case
  proof cases
    case nl
    with "2.IH"(1) obtain seps where
      ih: "length (split_breaks (dropWhile (\<lambda>d. d = 10) cs)) = Suc (length seps)"
        "list_all break_run seps"
        "weave (split_breaks (dropWhile (\<lambda>d. d = 10) cs)) seps = dropWhile (\<lambda>d. d = 10) cs"
      by blast
    let ?r = "takeWhile (\<lambda>d. d = 10) (c # cs)"
    have br: "break_run ?r"
      using nl by (simp add: break_run_def list_all_iff del: takeWhile.simps) (meson set_takeWhileD)
    have sp: "split_breaks (c # cs) = [] # split_breaks (dropWhile (\<lambda>d. d = 10) cs)"
      using nl by (auto simp del: takeWhile.simps)
    have "?r @ dropWhile (\<lambda>d. d = 10) cs = c # cs"
      using nl by auto
    with ih br sp have
      "length (split_breaks (c # cs)) = Suc (length (?r # seps)) \<and>
       list_all break_run (?r # seps) \<and> weave (split_breaks (c # cs)) (?r # seps) = c # cs"
      by (simp del: takeWhile.simps split_breaks.simps)
    then show ?thesis by blast
  next
    case dots
    with "2.IH"(2) obtain seps where
      ih: "length (split_breaks (dropWhile (\<lambda>d. d = 46) cs)) = Suc (length seps)"
        "list_all break_run seps"
        "weave (split_breaks (dropWhile (\<lambda>d. d = 46) cs)) seps = dropWhile (\<lambda>d. d = 46) cs"
      by blast
    let ?r = "takeWhile (\<lambda>d. d = 46) (c # cs)"
    have br: "break_run ?r"
      using dots by (simp add: break_run_def list_all_iff del: takeWhile.simps) (meson set_takeWhileD)
    have sp: "split_breaks (c # cs) = [] # split_breaks (dropWhile (\<lambda>d. d = 46) cs)"
      using dots by (auto simp del: takeWhile.simps)
    have "?r @ dropWhile (\<lambda>d. d = 46) cs = c # cs"
      using dots by auto
    with ih br sp have
      "length (split_breaks (c # cs)) = Suc (length (?r # seps)) \<and>
       list_all break_run (?r # seps) \<and> weave (split_breaks (c # cs)) (?r # seps) = c # cs"
      by (simp del: takeWhile.simps split_breaks.simps)
    then show ?thesis by blast
  next
    case none
    with "2.IH"(3) obtain seps where
      ih: "length (split_breaks cs) = Suc (length seps)" "list_all break_run seps"
        "weave (split_breaks cs) seps = cs"
      by blast
    obtain p ps where sp: "split_breaks cs = p # ps"
      by (cases "split_breaks cs") auto
    from none sp have sp': "split_breaks (c # cs) = (c # p) # ps"
      by (simp del: takeWhile.simps)
    from ih sp sp' have
      "length (split_breaks (c # cs)) = Suc (length seps) \<and> list_all break_run seps \<and>
       weave (split_breaks (c # cs)) seps = c # cs"
      by (simp add: weave_Cons_head del: split_breaks.simps)
    then show ?thesis by blast
  qed
qed




subsection \<open>The fragments and the assembled markup\<close>

lemma p_element_not_Nil [simp]: "p_element s \<noteq> []"
  by (simp add: p_element_def js_def)

lemma concat_p_element_Nil: "concat (map p_element fs) = [] \<longleftrightarrow> fs = []"
  by (cases fs) auto

lemma breakLongParagraph_Nil: "breakLongParagraph up p = [] \<longleftrightarrow> paragraph_chunks up p = []"
  by (simp add: breakLongParagraph_def concat_p_element_Nil)

lemma concat_map_fragments:
  "concat (map (\<lambda>p. if 700 < length p then breakLongParagraph up p else p_element p) ps) =
   concat (map p_element (concat (map (\<lambda>p. if 700 < length p then paragraph_chunks up p else [p]) ps)))"
  by (induction ps) (auto simp: breakLongParagraph_def)

lemma assemble_fragments: "assemble up c = concat (map p_element (fragments up c))"
proof -
  let ?ps = "final_paragraphs up c"
  let ?frags = "concat (map (\<lambda>p. if 700 < length p then paragraph_chunks up p else [p]) ?ps)"
  have "?ps = [] \<Longrightarrow> ?frags = []" by simp
  then show ?thesis
    unfolding assemble_def fragments_def Let_def concat_map_fragments concat_p_element_Nil
    by auto
qed

lemma c1_example_clean:
  "cleanText (js ''Hi.'' @ [10, 10] @ js ''Plenty of text follows here.'') =
   js ''Hi.'' @ [10, 10] @ js ''Plenty of text follows here.''"
  by (simp add: cleanText_def eval_simps del: eval_del)

lemma c1_example_assemble:
  "assemble up (js ''Hi.'' @ [10, 10] @ js ''Plenty of text follows here.'') =
   js ''<p>Plenty of text follows here.</p>''"
  by (simp add: assemble_defs eval_simps del: eval_del)

lemma c1_example_highlight:
  "highlight (js ''<p>Plenty of text follows here.</p>'') = js ''<p>Plenty of text follows here.</p>''"
  by (simp add: highlight_defs eval_simps del: eval_del)

lemma c1_example_formatText:
  "formatText up (js ''Hi.'' @ [10, 10] @ js ''Plenty of text follows here.'') =
   js ''<p>Plenty of text follows here.</p>''"
proof -
  have "js ''Hi.'' @ [10, 10] @ js ''Plenty of text follows here.'' \<noteq> []"
    by (simp add: js_def)
  then show ?thesis
    by (simp only: formatText_def c1_example_clean c1_example_assemble c1_example_highlight
        if_False)
qed

text \<open>
  C1, as stated, fails. The first tier drops every piece of at most 15 characters: of the
  text "Hi.", a blank line, "Plenty of text follows here." only the second piece is
  emitted, so the visible text of the output lacks "Hi.".
\<close>

theorem formatText_drops_short_piece:
  "visible_text (formatText toUpperCase_ascii
      (js ''Hi.'' @ [10, 10] @ js ''Plenty of text follows here.'')) =
     js ''Plentyoftextfollowshere.'' \<and>
   visible_text (cleanText (js ''Hi.'' @ [10, 10] @ js ''Plenty of text follows here.'')) =
     js ''Hi.Plentyoftextfollowshere.'' \<and>
   visible_text (formatText toUpperCase_ascii
      (js ''Hi.'' @ [10, 10] @ js ''Plenty of text follows here.'')) \<noteq>
   visible_text (cleanText (js ''Hi.'' @ [10, 10] @ js ''Plenty of text follows here.''))"
  unfolding c1_example_formatText c1_example_clean
  by (simp add: visible_text_def strip_tags_def nonspace_def js_def is_space_eval)


subsection \<open>Trimming\<close>

lemma trim_unchanged:
  assumes "s \<noteq> []" and "\<not> is_space (hd s)" and "\<not> is_space (last s)"
  shows "trim s = s"
proof -
  from assms(1,2) have a: "dropWhile is_space s = s"
    by (cases s) auto
  from assms(1,3) have "dropWhile is_space (rev s) = rev s"
    by (cases "rev s") (auto simp: last_rev [symmetric] hd_rev)
  with a show ?thesis by (simp add: trim_def)
qed

lemma trim_ends:
  assumes "trim s \<noteq> []"
  shows "\<not> is_space (hd (trim s)) \<and> \<not> is_space (last (trim s))"
proof -
  let ?t = "dropWhile is_space (rev (dropWhile is_space s))"
  from assms have t: "?t \<noteq> []" by (simp add: trim_def)
  then have h: "\<not> is_space (hd ?t)" by (rule hd_dropWhile)
  have l: "last (trim s) = hd ?t"
    using t by (simp add: trim_def last_rev)
  from t have d: "dropWhile is_space s \<noteq> []"
    by (metis dropWhile.simps(1) rev.simps(1))
  have "hd (trim s) = last ?t"
    using t by (simp add: trim_def hd_rev)
  also have "\<dots> = last (rev (dropWhile is_space s))"
    using t by (metis last_appendR takeWhile_dropWhile_id)
  also have "\<dots> = hd (dropWhile is_space s)"
    using d by (simp add: last_rev)
  finally have "hd (trim s) = hd (dropWhile is_space s)" .
  with d have "\<not> is_space (hd (trim s))"
    by (simp add: hd_dropWhile)
  with h l show ?thesis by simp
qed

lemma trim_decomp:
  "\<exists>u v. s = u @ trim s @ v \<and> list_all is_space u \<and> list_all is_space v"
proof -
  let ?d = "dropWhile is_space s"
  let ?u = "takeWhile is_space s"
  let ?v = "rev (takeWhile is_space (rev ?d))"
  have "rev ?d = takeWhile is_space (rev ?d) @ dropWhile is_space (rev ?d)"
    by simp
  then have "?d = rev (dropWhile is_space (rev ?d)) @ ?v"
    by (metis rev_append rev_rev_ident)
  then have "s = ?u @ trim s @ ?v"
    by (metis takeWhile_dropWhile_id trim_def)
  moreover have "list_all is_space ?u"
    by (simp add: list_all_iff) (meson set_takeWhileD)
  moreover have "list_all is_space ?v"
    by (simp add: list_all_iff) (meson set_takeWhileD)
  ultimately show ?thesis by blast
qed

lemma nonspace_append [simp]: "nonspace (a @ b) = nonspace a @ nonspace b"
  by (simp add: nonspace_def)

lemma nonspace_spaces: "list_all is_space u \<Longrightarrow> nonspace u = []"
  by (induction u) (auto simp: nonspace_def)

lemma nonspace_trim [simp]: "nonspace (trim s) = nonspace s"
proof -
  obtain u v where "s = u @ trim s @ v" "list_all is_space u" "list_all is_space v"
    using trim_decomp by blast
  then show ?thesis
    by (metis append_Nil append_Nil2 nonspace_append nonspace_spaces)
qed

subsection \<open>Pieces without a sentence break\<close>

lemma no_dot_space_append:
  "no_dot_space (a @ b) \<Longrightarrow> no_dot_space a \<and> no_dot_space b"
proof (induction a rule: no_dot_space.induct)
  case (1 c d r)
  then show ?case by auto
next
  case (2 c)
  then show ?case by (cases b) auto
next
  case 3
  then show ?case by simp
qed

lemma no_dot_space_trim: "no_dot_space s \<Longrightarrow> no_dot_space (trim s)"
proof -
  assume a: "no_dot_space s"
  obtain u v where "s = u @ trim s @ v"
    using trim_decomp by blast
  with a show ?thesis
    by (metis no_dot_space_append)
qed

lemma no_dot_space_snoc:
  "no_dot_space a \<Longrightarrow> \<not> is_space x \<Longrightarrow> no_dot_space (a @ [x])"
  by (induction a rule: no_dot_space.induct) auto

lemma no_dot_space_Cons:
  "no_dot_space (c # s) \<longleftrightarrow> \<not> (c = 46 \<and> s \<noteq> [] \<and> is_space (hd s)) \<and> no_dot_space s"
  by (cases s) auto

lemma split_sentences_not_Nil [simp]: "split_sentences s \<noteq> []"
  by (induction s rule: split_sentences.induct) (auto split: list.splits)

lemma takeWhile_not_Nil: "takeWhile P s \<noteq> [] \<longleftrightarrow> s \<noteq> [] \<and> P (hd s)"
  by (cases s) auto

lemma split_sentences_hd_prefix:
  "take (length (hd (split_sentences s))) s = hd (split_sentences s)"
proof (induction s rule: split_sentences.induct)
  case 1
  then show ?case by simp
next
  case (2 c cs)
  then show ?case
    by (cases "split_sentences cs") (auto simp del: takeWhile.simps dropWhile.simps)
qed

lemma split_sentences_pieces: "list_all no_dot_space (split_sentences s)"
proof (induction s rule: split_sentences.induct)
  case 1
  then show ?case by simp
next
  case (2 c cs)
  show ?case
  proof (cases "c = 46 \<and> takeWhile is_space cs \<noteq> []")
    case True
    with 2 show ?thesis by (auto simp del: takeWhile.simps dropWhile.simps)
  next
    case False
    obtain p ps where sp: "split_sentences cs = p # ps"
      by (cases "split_sentences cs") auto
    from False 2 sp have ih: "list_all no_dot_space (p # ps)"
      by (auto simp del: takeWhile.simps dropWhile.simps)
    have pre: "take (length p) cs = p"
      using split_sentences_hd_prefix [of cs] sp by simp
    have "p \<noteq> [] \<Longrightarrow> cs \<noteq> [] \<and> hd cs = hd p"
      using pre by (cases cs; cases p) auto
    with False have "\<not> (c = 46 \<and> p \<noteq> [] \<and> is_space (hd p))"
      by (auto simp: takeWhile_not_Nil)
    with ih have "no_dot_space (c # p)"
      by (simp add: no_dot_space_Cons)
    with False ih sp show ?thesis
      by (auto simp del: takeWhile.simps dropWhile.simps)
  qed
qed

text \<open>A stretch without a break is glued to the first piece of what follows it.\<close>

lemma split_sentences_glue:
  "no_dot_space (b @ take 1 t) \<Longrightarrow>
   split_sentences (b @ t) = (b @ hd (split_sentences t)) # tl (split_sentences t)"
proof (induction b)
  case Nil
  then show ?case by simp
next
  case (Cons c b)
  from Cons.prems have nd: "no_dot_space (b @ take 1 t)"
    and nm: "\<not> (c = 46 \<and> b @ take 1 t \<noteq> [] \<and> is_space (hd (b @ take 1 t)))"
    by (simp_all add: no_dot_space_Cons)
  have "takeWhile is_space (b @ t) \<noteq> [] \<longleftrightarrow>
        b @ take 1 t \<noteq> [] \<and> is_space (hd (b @ take 1 t))"
    by (cases b; cases t) auto
  with nm have "\<not> (c = 46 \<and> takeWhile is_space (b @ t) \<noteq> [])"
    by blast
  with Cons.IH [OF nd] show ?case
    by (simp del: takeWhile.simps)
qed

lemma split_sentences_no_break: "no_dot_space s \<Longrightarrow> split_sentences s = [s]"
  using split_sentences_glue [of s "[]"] by simp

lemma split_sentences_full_stop:
  assumes "no_dot_space (b @ [46])" and "t = [] \<or> \<not> is_space (hd t)"
  shows "split_sentences (b @ 46 # 32 # t) = b # split_sentences t"
proof -
  have sp: "is_space 32" by (simp add: is_space_def)
  from assms(2) have d: "dropWhile is_space t = t"
    by (cases t) auto
  have "split_sentences (46 # 32 # t) = [] # split_sentences t"
    using sp d by simp
  moreover have "no_dot_space (b @ take 1 (46 # 32 # t))"
    using assms(1) by simp
  ultimately show ?thesis
    using split_sentences_glue [of b "46 # 32 # t"] by simp
qed

subsection \<open>Sentences and their joins\<close>

lemma full_stop_good: "full_stop s \<Longrightarrow> good_sentence s"
proof -
  assume a: "full_stop s"
  then have s: "s = butlast s @ [46]" and g: "good_sentence (butlast s)"
    by (auto simp: full_stop_def) (metis append_butlast_last_id)
  have ns: "\<not> is_space 46" by (simp add: is_space_def)
  from g have "butlast s \<noteq> []" "\<not> is_space (hd (butlast s))" "no_dot_space (butlast s)"
    by (simp_all add: good_sentence_def)
  then have "hd (butlast s @ [46]) = hd (butlast s)" "no_dot_space (butlast s @ [46])"
    "\<not> is_space (hd (butlast s))"
    using ns by (simp_all add: no_dot_space_snoc)
  with s ns show ?thesis
    unfolding good_sentence_def by (metis last_snoc snoc_eq_iff_butlast)
qed

lemma good_sentence_trim: "no_dot_space raw \<Longrightarrow> trim raw \<noteq> [] \<Longrightarrow> good_sentence (trim raw)"
  by (simp add: good_sentence_def trim_ends no_dot_space_trim)

lemma full_stop_trim:
  "no_dot_space raw \<Longrightarrow> trim raw \<noteq> [] \<Longrightarrow> full_stop (trim raw @ [46])"
  by (simp add: full_stop_def good_sentence_trim)

lemma prepare_sentences_ok:
  "list_all no_dot_space pieces \<Longrightarrow>
   list_all good_sentence (prepare_sentences pieces) \<and>
   list_all full_stop (butlast (prepare_sentences pieces))"
proof (induction pieces)
  case Nil
  then show ?case by simp
next
  case (Cons raw rest)
  then have ih: "list_all good_sentence (prepare_sentences rest)"
    "list_all full_stop (butlast (prepare_sentences rest))"
    and nd: "no_dot_space raw"
    by simp_all
  show ?case
  proof (cases "trim raw = []")
    case True
    with ih show ?thesis by simp
  next
    case False
    show ?thesis
    proof (cases "rest = []")
      case True
      with False nd show ?thesis by (simp add: good_sentence_trim)
    next
      case False
      with \<open>trim raw \<noteq> []\<close> nd ih show ?thesis
        by (simp add: full_stop_trim full_stop_good)
    qed
  qed
qed

lemma sentences_of_ok:
  "list_all good_sentence (sentences_of s) \<and> list_all full_stop (butlast (sentences_of s))"
  unfolding sentences_of_def
  by (rule prepare_sentences_ok) (rule split_sentences_pieces)

lemma join_sp_Nil: "list_all good_sentence g \<Longrightarrow> join_sp g = [] \<longleftrightarrow> g = []"
  by (induction g rule: join_sp.induct) (auto simp: good_sentence_def)

lemma join_sp_snoc:
  "join_sp (g @ [s]) = (if g = [] then s else join_sp g @ 32 # s)"
  by (induction g rule: join_sp.induct) auto

lemma join_sp_Cons:
  "join_sp (s # g) = (if g = [] then s else s @ 32 # join_sp g)"
  by (cases g) auto

lemma join_sp_ends:
  "g \<noteq> [] \<Longrightarrow> list_all good_sentence g \<Longrightarrow>
   join_sp g \<noteq> [] \<and> hd (join_sp g) = hd (hd g) \<and> last (join_sp g) = last (last g)"
proof (induction g rule: join_sp.induct)
  case 1
  then show ?case by simp
next
  case (2 s)
  then show ?case by (simp add: good_sentence_def)
next
  case (3 s t r)
  then show ?case by (auto simp: good_sentence_def)
qed

lemma trim_join_sp: "list_all good_sentence g \<Longrightarrow> trim (join_sp g) = join_sp g"
proof (cases "g = []")
  case True
  then show ?thesis by (simp add: trim_def)
next
  case False
  assume a: "list_all good_sentence g"
  with False have e: "join_sp g \<noteq> []" "hd (join_sp g) = hd (hd g)"
    "last (join_sp g) = last (last g)"
    using join_sp_ends by blast+
  from False a have "good_sentence (hd g)" "good_sentence (last g)"
    by (cases g, auto simp: list_all_iff)
  with e show ?thesis
    by (intro trim_unchanged) (simp_all add: good_sentence_def)
qed

lemma nonspace_join_sp: "nonspace (join_sp g) = nonspace (concat g)"
proof (induction g rule: join_sp.induct)
  case 1
  then show ?case by simp
next
  case (2 s)
  then show ?case by simp
next
  case (3 s t r)
  have "nonspace [32] = []" by (simp add: nonspace_def is_space_def)
  with 3 show ?case
    by (metis append_Cons append_Nil concat.simps(2) join_sp.simps(3) nonspace_append)
qed

text \<open>Splitting a joined group gives its sentences back, the dots of all but the last taken off.\<close>

lemma split_sentences_join_sp:
  "g \<noteq> [] \<Longrightarrow> list_all good_sentence g \<Longrightarrow> list_all full_stop (butlast g) \<Longrightarrow>
   split_sentences (join_sp g) = map butlast (butlast g) @ [last g]"
proof (induction g rule: join_sp.induct)
  case 1
  then show ?case by simp
next
  case (2 s)
  then show ?case by (simp add: good_sentence_def split_sentences_no_break)
next
  case (3 s t r)
  from "3.prems" have fs: "full_stop s" and g': "list_all good_sentence (t # r)"
    and f': "list_all full_stop (butlast (t # r))"
    by simp_all
  from fs have s: "s = butlast s @ [46]"
    by (auto simp: full_stop_def) (metis append_butlast_last_id)
  from fs have "no_dot_space s"
    using full_stop_good by (simp add: good_sentence_def)
  with s have nd: "no_dot_space (butlast s @ [46])" by simp
  from g' have e: "join_sp (t # r) \<noteq> []" "hd (join_sp (t # r)) = hd t"
    using join_sp_ends [of "t # r"] by simp_all
  from g' have "\<not> is_space (hd t)" by (simp add: good_sentence_def)
  with e have st: "join_sp (t # r) = [] \<or> \<not> is_space (hd (join_sp (t # r)))" by simp
  have j: "join_sp (s # t # r) = butlast s @ 46 # 32 # join_sp (t # r)"
    using s by (metis append_Cons append_Nil append_assoc join_sp.simps(3))
  have "split_sentences (join_sp (s # t # r)) = butlast s # split_sentences (join_sp (t # r))"
    unfolding j by (rule split_sentences_full_stop [OF nd st])
  with "3.IH" g' f' show ?case by simp
qed

lemma split_sentences_join_sp_length:
  "g \<noteq> [] \<Longrightarrow> list_all good_sentence g \<Longrightarrow> list_all full_stop (butlast g) \<Longrightarrow>
   length (split_sentences (join_sp g)) = length g"
  by (simp add: split_sentences_join_sp)

subsection \<open>The loops as groupings of sentences\<close>

lemma group_loop_concat:
  "group_loop pre post ss G g = (G', g') \<Longrightarrow> concat G' @ g' = concat G @ g @ ss"
  by (induction ss arbitrary: G g) (auto split: if_splits)

lemma group_loop_invariant:
  assumes single: "\<And>s. ok [s]"
    and extend: "\<And>g s. cur g \<Longrightarrow> g \<noteq> [] \<Longrightarrow> \<not> pre g s \<Longrightarrow> ok (g @ [s])"
    and keep: "\<And>g. ok g \<Longrightarrow> \<not> post g \<Longrightarrow> cur g"
    and close: "\<And>g. cur g \<Longrightarrow> g \<noteq> [] \<Longrightarrow> ok g"
    and empty: "cur []"
  shows "group_loop pre post ss G g = (G', g') \<Longrightarrow> list_all ok G \<Longrightarrow> cur g \<Longrightarrow>
         list_all ok G' \<and> cur g'"
proof (induction ss arbitrary: G g)
  case Nil
  then show ?case by simp
next
  case (Cons s ss)
  show ?case
  proof (cases "g \<noteq> [] \<and> pre g s")
    case True
    with Cons.prems have okg: "ok g" using close by blast
    show ?thesis
    proof (cases "post [s]")
      case p: True
      with True Cons.prems have "group_loop pre post ss (G @ [g] @ [[s]]) [] = (G', g')"
        by simp
      moreover have "list_all ok (G @ [g] @ [[s]])"
        using Cons.prems okg single by simp
      ultimately show ?thesis using Cons.IH empty by blast
    next
      case p: False
      with True Cons.prems have "group_loop pre post ss (G @ [g]) [s] = (G', g')"
        by simp
      moreover have "list_all ok (G @ [g])"
        using Cons.prems okg by simp
      moreover have "cur [s]" using keep single p by blast
      ultimately show ?thesis using Cons.IH by blast
    qed
  next
    case False
    have okn: "ok (g @ [s])"
    proof (cases "g = []")
      case True
      then show ?thesis using single by simp
    next
      case g: False
      with False have "\<not> pre g s" by simp
      with g Cons.prems show ?thesis using extend by blast
    qed
    show ?thesis
    proof (cases "post (g @ [s])")
      case p: True
      with False Cons.prems have "group_loop pre post ss (G @ [g @ [s]]) [] = (G', g')"
        by auto
      moreover have "list_all ok (G @ [g @ [s]])"
        using Cons.prems okn by simp
      ultimately show ?thesis using Cons.IH empty by blast
    next
      case p: False
      with False Cons.prems have "group_loop pre post ss G (g @ [s]) = (G', g')"
        by auto
      moreover have "cur (g @ [s])" using keep okn p by blast
      ultimately show ?thesis using Cons.IH Cons.prems by blast
    qed
  qed
qed

lemma groups_of_concat: "concat (groups_of pre post ss) = ss"
proof -
  obtain G g where r: "group_loop pre post ss [] [] = (G, g)"
    by (cases "group_loop pre post ss [] []")
  from group_loop_concat [OF r] have "concat G @ g = ss" by simp
  with r show ?thesis by (auto simp: groups_of_def)
qed

lemma groups_of_invariant:
  assumes single: "\<And>s. ok [s]"
    and extend: "\<And>g s. cur g \<Longrightarrow> g \<noteq> [] \<Longrightarrow> \<not> pre g s \<Longrightarrow> ok (g @ [s])"
    and keep: "\<And>g. ok g \<Longrightarrow> \<not> post g \<Longrightarrow> cur g"
    and close: "\<And>g. cur g \<Longrightarrow> g \<noteq> [] \<Longrightarrow> ok g"
    and empty: "cur []"
  shows "list_all ok (groups_of pre post ss)"
proof -
  obtain G g where r: "group_loop pre post ss [] [] = (G, g)"
    by (cases "group_loop pre post ss [] []")
  have "list_all ok G \<and> cur g"
    using group_loop_invariant [of ok cur pre post ss "[]" "[]" G g, OF single extend keep close empty r]
      empty
    by simp
  with r close show ?thesis by (auto simp: groups_of_def)
qed

lemma groups_of_not_Nil: "list_all (\<lambda>g. g \<noteq> []) (groups_of pre post ss)"
  by (rule groups_of_invariant [where cur = "\<lambda>g. True"]) simp_all

lemma group_loop_neighbours:
  "group_loop pre post ss G g = (G', g') \<Longrightarrow>
   successively (\<lambda>a b. post a \<or> pre a (hd b)) G \<Longrightarrow>
   (G \<noteq> [] \<longrightarrow> post (last G) \<or> (g \<noteq> [] \<and> pre (last G) (hd g))) \<Longrightarrow>
   successively (\<lambda>a b. post a \<or> pre a (hd b)) G' \<and>
   (G' \<noteq> [] \<longrightarrow> post (last G') \<or> (g' \<noteq> [] \<and> pre (last G') (hd g')))"
proof (induction ss arbitrary: G g)
  case Nil
  then show ?case by simp
next
  case (Cons s ss)
  let ?R = "\<lambda>a b. post a \<or> pre a (hd b)"
  show ?case
  proof (cases "g \<noteq> [] \<and> pre g s")
    case True
    have sg: "successively ?R (G @ [g])"
      using Cons.prems(2,3) True by (auto simp: successively_append_iff)
    show ?thesis
    proof (cases "post [s]")
      case p: True
      with True Cons.prems have "group_loop pre post ss (G @ [g] @ [[s]]) [] = (G', g')"
        by simp
      moreover have "successively ?R (G @ [g] @ [[s]])"
        using sg True by (simp add: successively_append_iff)
      moreover have "post (last (G @ [g] @ [[s]]))"
        using p by simp
      ultimately show ?thesis using Cons.IH by blast
    next
      case p: False
      with True Cons.prems have "group_loop pre post ss (G @ [g]) [s] = (G', g')"
        by simp
      moreover have "[s] \<noteq> [] \<and> pre (last (G @ [g])) (hd [s])"
        using True by simp
      ultimately show ?thesis using Cons.IH sg by blast
    qed
  next
    case False
    show ?thesis
    proof (cases "post (g @ [s])")
      case p: True
      with False Cons.prems have "group_loop pre post ss (G @ [g @ [s]]) [] = (G', g')"
        by auto
      moreover have "successively ?R (G @ [g @ [s]])"
        using Cons.prems(2,3) by (auto simp: successively_append_iff)
      moreover have "post (last (G @ [g @ [s]]))"
        using p by simp
      ultimately show ?thesis using Cons.IH by blast
    next
      case p: False
      with False Cons.prems have "group_loop pre post ss G (g @ [s]) = (G', g')"
        by auto
      moreover have "G \<noteq> [] \<longrightarrow> post (last G) \<or> (g @ [s] \<noteq> [] \<and> pre (last G) (hd (g @ [s])))"
        using Cons.prems(3) by auto
      ultimately show ?thesis using Cons.IH Cons.prems(2) by blast
    qed
  qed
qed

lemma groups_of_neighbours:
  "successively (\<lambda>a b. post a \<or> pre a (hd b)) (groups_of pre post ss)"
proof -
  obtain G g where r: "group_loop pre post ss [] [] = (G, g)"
    by (cases "group_loop pre post ss [] []")
  from group_loop_neighbours [OF r]
  have "successively (\<lambda>a b. post a \<or> pre a (hd b)) G"
    and "G \<noteq> [] \<longrightarrow> post (last G) \<or> (g \<noteq> [] \<and> pre (last G) (hd g))"
    by simp_all
  with r show ?thesis
    by (auto simp: groups_of_def successively_append_iff)
qed

lemma groups_of_closed:
  "groups_of pre post ss = G1 @ a # b # G2 \<Longrightarrow> post a \<or> pre a (hd b)"
  using groups_of_neighbours [of post pre ss]
  by (simp add: successively_append_iff)

lemma shouldStartNewParagraph_keyword_start:
  "shouldStartNewParagraph up s cur = (cur \<noteq> [] \<and> keyword_start up s)"
  by (simp add: shouldStartNewParagraph_def keyword_start_def Let_def)


lemma sentence_loop_step:
  "trim raw \<noteq> [] \<Longrightarrow>
   sentence_loop up (raw # rest) ps cur =
     (let s = (if rest \<noteq> [] then trim raw @ [46] else trim raw);
          ps1 = (if cur \<noteq> [] \<and> keyword_start up s
                 then (if trim cur \<noteq> [] then ps @ [trim cur] else ps) else ps);
          cur1 = (if cur \<noteq> [] \<and> keyword_start up s then s
                  else cur @ (if cur \<noteq> [] then [32] else []) @ s)
      in if 3 \<le> length (split_sentences cur1)
         then sentence_loop up rest (ps1 @ [trim cur1]) []
         else sentence_loop up rest ps1 cur1)"
  by (simp add: Let_def shouldStartNewParagraph_keyword_start)

lemma sentence_loop_groups:
  "list_all no_dot_space pieces \<Longrightarrow> list_all full_stop g \<Longrightarrow>
   sentence_loop up pieces (map join_sp G) (join_sp g) =
     (case group_loop (\<lambda>g s. keyword_start up s) (\<lambda>g. 3 \<le> length g)
             (prepare_sentences pieces) G g of
        (G', g') \<Rightarrow> (map join_sp G', join_sp g'))"
proof (induction pieces arbitrary: G g)
  case Nil
  then show ?case by simp
next
  case (Cons raw rest)
  from Cons.prems have nd: "no_dot_space raw" and ndr: "list_all no_dot_space rest"
    by simp_all
  from Cons.prems have gg: "list_all good_sentence g"
    by (simp add: list_all_iff full_stop_good)
  show ?case
  proof (cases "trim raw = []")
    case True
    with Cons.IH [OF ndr Cons.prems(2)] show ?thesis by simp
  next
    case False
    define s where "s = (if rest \<noteq> [] then trim raw @ [46] else trim raw)"
    have gs: "good_sentence s"
      using False nd by (simp add: s_def good_sentence_trim full_stop_trim full_stop_good)
    have fs: "rest \<noteq> [] \<Longrightarrow> full_stop s"
      using False nd by (simp add: s_def full_stop_trim)
    have prep: "prepare_sentences (raw # rest) = s # prepare_sentences rest"
      using False by (simp add: s_def)
    have jn: "join_sp g = [] \<longleftrightarrow> g = []"
      using gg by (rule join_sp_Nil)
    define g1 where "g1 = (if g \<noteq> [] \<and> keyword_start up s then [s] else g @ [s])"
    define G1 where "G1 = (if g \<noteq> [] \<and> keyword_start up s then G @ [g] else G)"
    have g1ne: "g1 \<noteq> []" by (simp add: g1_def)
    have g1g: "list_all good_sentence g1"
      using gg gs by (simp add: g1_def)
    have g1f: "list_all full_stop (butlast g1)"
      using Cons.prems(2) by (simp add: g1_def)
    have cnt: "length (split_sentences (join_sp g1)) = length g1"
      using g1ne g1g g1f by (rule split_sentences_join_sp_length)
    have cur1: "(if join_sp g \<noteq> [] \<and> keyword_start up s then s
                 else join_sp g @ (if join_sp g \<noteq> [] then [32] else []) @ s) = join_sp g1"
      by (simp add: g1_def jn join_sp_snoc)
    have ps1: "(if join_sp g \<noteq> [] \<and> keyword_start up s
                then (if trim (join_sp g) \<noteq> [] then map join_sp G @ [trim (join_sp g)]
                      else map join_sp G)
                else map join_sp G) = map join_sp G1"
      using gg by (simp add: G1_def jn trim_join_sp)
    have step: "sentence_loop up (raw # rest) (map join_sp G) (join_sp g) =
      (if 3 \<le> length g1
       then sentence_loop up rest (map join_sp (G1 @ [g1])) (join_sp [])
       else sentence_loop up rest (map join_sp G1) (join_sp g1))"
    proof -
      have "sentence_loop up (raw # rest) (map join_sp G) (join_sp g) =
        (if 3 \<le> length (split_sentences (join_sp g1))
         then sentence_loop up rest (map join_sp G1 @ [trim (join_sp g1)]) []
         else sentence_loop up rest (map join_sp G1) (join_sp g1))"
        unfolding sentence_loop_step [OF False] Let_def s_def [symmetric] cur1 ps1
        by (rule refl)
      then show ?thesis
        using g1g by (simp add: cnt trim_join_sp)
    qed
    have gstep: "group_loop (\<lambda>g s. keyword_start up s) (\<lambda>g. 3 \<le> length g)
                   (prepare_sentences (raw # rest)) G g =
      (if 3 \<le> length g1
       then group_loop (\<lambda>g s. keyword_start up s) (\<lambda>g. 3 \<le> length g)
              (prepare_sentences rest) (G1 @ [g1]) []
       else group_loop (\<lambda>g s. keyword_start up s) (\<lambda>g. 3 \<le> length g)
              (prepare_sentences rest) G1 g1)"
      unfolding prep by (simp add: g1_def G1_def del: prepare_sentences.simps)
    show ?thesis
    proof (cases "3 \<le> length g1")
      case True
      have "list_all full_stop []" by simp
      from Cons.IH [OF ndr this, of "G1 @ [g1]"] True step gstep show ?thesis
        by simp
    next
      case nf: False
      show ?thesis
      proof (cases "rest = []")
        case True
        with nf step gstep show ?thesis by simp
      next
        case False
        with fs Cons.prems(2) have "list_all full_stop g1"
          by (simp add: g1_def)
        from Cons.IH [OF ndr this, of G1] nf step gstep show ?thesis
          by simp
      qed
    qed
  qed
qed


lemma group_loop_current:
  "group_loop pre post ss G g = (G', g') \<Longrightarrow> list_all P ss \<Longrightarrow> list_all P g \<Longrightarrow>
   list_all P g'"
  by (induction ss arbitrary: G g) (auto split: if_splits)

lemma groups_of_elements:
  "list_all P ss \<Longrightarrow> list_all (list_all P) (groups_of pre post ss)"
proof -
  assume a: "list_all P ss"
  have "concat (groups_of pre post ss) = ss" by (rule groups_of_concat)
  with a have "list_all P (concat (groups_of pre post ss))" by simp
  then show ?thesis by (simp add: list_all_iff)
qed

lemma sentence_paragraphs_groups:
  "sentence_paragraphs up c =
     map join_sp (groups_of (\<lambda>g s. keyword_start up s) (\<lambda>g. 3 \<le> length g) (sentences_of c))"
proof -
  let ?pre = "\<lambda>(g :: jsstring list) s. keyword_start up s"
  let ?post = "\<lambda>g :: jsstring list. 3 \<le> length g"
  obtain G g where r: "group_loop ?pre ?post (sentences_of c) [] [] = (G, g)"
    by (cases "group_loop ?pre ?post (sentences_of c) [] []")
  have "list_all good_sentence g"
    using group_loop_current [OF r] sentences_of_ok [of c] by simp
  then have t: "trim (join_sp g) = join_sp g" and n: "join_sp g = [] \<longleftrightarrow> g = []"
    by (simp_all add: trim_join_sp join_sp_Nil)
  have "sentence_loop up (split_sentences c) (map join_sp []) (join_sp []) =
        (map join_sp G, join_sp g)"
    using sentence_loop_groups [of "split_sentences c" "[]" up "[]"] r
    by (simp add: split_sentences_pieces sentences_of_def)
  then show ?thesis
    using r t n by (simp add: sentence_paragraphs_def groups_of_def)
qed

lemma force_loop_groups:
  "list_all no_dot_space pieces \<Longrightarrow> list_all full_stop g \<Longrightarrow>
   force_loop pieces (map join_sp G) (join_sp g) =
     (case group_loop (\<lambda>g s. 2 \<le> length g) (\<lambda>g. False) (prepare_sentences pieces) G g of
        (G', g') \<Rightarrow> (map join_sp G', join_sp g'))"
proof (induction pieces arbitrary: G g)
  case Nil
  then show ?case by simp
next
  case (Cons raw rest)
  from Cons.prems have nd: "no_dot_space raw" and ndr: "list_all no_dot_space rest"
    by simp_all
  from Cons.prems have gg: "list_all good_sentence g"
    by (simp add: list_all_iff full_stop_good)
  show ?case
  proof (cases "trim raw = []")
    case True
    with Cons.IH [OF ndr Cons.prems(2)] show ?thesis by simp
  next
    case False
    define s where "s = (if rest \<noteq> [] then trim raw @ [46] else trim raw)"
    have gs: "good_sentence s"
      using False nd by (simp add: s_def good_sentence_trim full_stop_trim full_stop_good)
    have fs: "rest \<noteq> [] \<Longrightarrow> full_stop s"
      using False nd by (simp add: s_def full_stop_trim)
    have prep: "prepare_sentences (raw # rest) = s # prepare_sentences rest"
      using False by (simp add: s_def)
    have jn: "join_sp g = [] \<longleftrightarrow> g = []"
      using gg by (rule join_sp_Nil)
    have cnt: "g \<noteq> [] \<Longrightarrow> length (split_sentences (join_sp g)) = length g"
      using gg Cons.prems(2)
      by (intro split_sentences_join_sp_length) (auto simp: list_all_iff dest: in_set_butlastD)
    define g1 where "g1 = (if g \<noteq> [] \<and> 2 \<le> length g then [s] else g @ [s])"
    define G1 where "G1 = (if g \<noteq> [] \<and> 2 \<le> length g then G @ [g] else G)"
    have step: "force_loop (raw # rest) (map join_sp G) (join_sp g) =
                force_loop rest (map join_sp G1) (join_sp g1)"
      using False gg cnt
      by (auto simp: Let_def s_def [symmetric] g1_def G1_def jn trim_join_sp join_sp_snoc)
    have gstep: "group_loop (\<lambda>g s. 2 \<le> length g) (\<lambda>g. False) (prepare_sentences (raw # rest)) G g =
                 group_loop (\<lambda>g s. 2 \<le> length g) (\<lambda>g. False) (prepare_sentences rest) G1 g1"
      unfolding prep by (simp add: g1_def G1_def del: prepare_sentences.simps)
    show ?thesis
    proof (cases "rest = []")
      case True
      with step gstep show ?thesis by simp
    next
      case False
      with fs Cons.prems(2) have "list_all full_stop g1"
        by (simp add: g1_def)
      from Cons.IH [OF ndr this, of G1] step gstep show ?thesis
        by simp
    qed
  qed
qed

lemma forceParagraphBreaks_groups:
  "forceParagraphBreaks p =
     map join_sp (groups_of (\<lambda>g s. 2 \<le> length g) (\<lambda>g. False) (sentences_of p))"
proof -
  let ?pre = "\<lambda>(g :: jsstring list) (s :: jsstring). 2 \<le> length g"
  let ?post = "\<lambda>g :: jsstring list. False"
  obtain G g where r: "group_loop ?pre ?post (sentences_of p) [] [] = (G, g)"
    by (cases "group_loop ?pre ?post (sentences_of p) [] []")
  have "list_all good_sentence g"
    using group_loop_current [OF r] sentences_of_ok [of p] by simp
  then have t: "trim (join_sp g) = join_sp g" and n: "join_sp g = [] \<longleftrightarrow> g = []"
    by (simp_all add: trim_join_sp join_sp_Nil)
  have "force_loop (split_sentences p) (map join_sp []) (join_sp []) =
        (map join_sp G, join_sp g)"
    using force_loop_groups [of "split_sentences p" "[]" "[]"] r
    by (simp add: split_sentences_pieces sentences_of_def)
  then show ?thesis
    using r t n by (simp add: forceParagraphBreaks_def groups_of_def)
qed

lemma chunk_loop_groups:
  "list_all no_dot_space pieces \<Longrightarrow> list_all full_stop g \<Longrightarrow>
   chunk_loop up pieces (map join_sp G) (join_sp g) =
     (case group_loop (\<lambda>g s. 350 < length (join_sp g @ [32] @ s) \<or> keyword_start up s)
             (\<lambda>g. False) (prepare_sentences pieces) G g of
        (G', g') \<Rightarrow> (map join_sp G', join_sp g'))"
proof (induction pieces arbitrary: G g)
  case Nil
  then show ?case by simp
next
  case (Cons raw rest)
  let ?pre = "\<lambda>g s. 350 < length (join_sp g @ [32] @ s) \<or> keyword_start up s"
  from Cons.prems have nd: "no_dot_space raw" and ndr: "list_all no_dot_space rest"
    by simp_all
  from Cons.prems have gg: "list_all good_sentence g"
    by (simp add: list_all_iff full_stop_good)
  show ?case
  proof (cases "trim raw = []")
    case True
    with Cons.IH [OF ndr Cons.prems(2)] show ?thesis by simp
  next
    case False
    define s where "s = (if rest \<noteq> [] then trim raw @ [46] else trim raw)"
    have gs: "good_sentence s"
      using False nd by (simp add: s_def good_sentence_trim full_stop_trim full_stop_good)
    have fs: "rest \<noteq> [] \<Longrightarrow> full_stop s"
      using False nd by (simp add: s_def full_stop_trim)
    have prep: "prepare_sentences (raw # rest) = s # prepare_sentences rest"
      using False by (simp add: s_def)
    have jn: "join_sp g = [] \<longleftrightarrow> g = []"
      using gg by (rule join_sp_Nil)
    define g1 where "g1 = (if g \<noteq> [] \<and> ?pre g s then [s] else g @ [s])"
    define G1 where "G1 = (if g \<noteq> [] \<and> ?pre g s then G @ [g] else G)"
    have step: "chunk_loop up (raw # rest) (map join_sp G) (join_sp g) =
                chunk_loop up rest (map join_sp G1) (join_sp g1)"
      using False gg
      by (auto simp: Let_def s_def [symmetric] g1_def G1_def jn trim_join_sp join_sp_snoc
          shouldStartNewParagraph_keyword_start)
    have gstep: "group_loop ?pre (\<lambda>g. False) (prepare_sentences (raw # rest)) G g =
                 group_loop ?pre (\<lambda>g. False) (prepare_sentences rest) G1 g1"
      unfolding prep by (simp add: g1_def G1_def del: prepare_sentences.simps)
    show ?thesis
    proof (cases "rest = []")
      case True
      with step gstep show ?thesis by simp
    next
      case False
      with fs Cons.prems(2) have "list_all full_stop g1"
        by (simp add: g1_def)
      from Cons.IH [OF ndr this, of G1] step gstep show ?thesis
        by simp
    qed
  qed
qed

lemma paragraph_chunks_groups:
  "paragraph_chunks up p =
     map join_sp (groups_of (\<lambda>g s. 350 < length (join_sp g @ [32] @ s) \<or> keyword_start up s)
                    (\<lambda>g. False) (sentences_of p))"
proof -
  let ?pre = "\<lambda>g s. 350 < length (join_sp g @ [32] @ s) \<or> keyword_start up s"
  let ?post = "\<lambda>g :: jsstring list. False"
  obtain G g where r: "group_loop ?pre ?post (sentences_of p) [] [] = (G, g)"
    by (cases "group_loop ?pre ?post (sentences_of p) [] []")
  have "list_all good_sentence g"
    using group_loop_current [OF r] sentences_of_ok [of p] by simp
  then have t: "trim (join_sp g) = join_sp g" and n: "join_sp g = [] \<longleftrightarrow> g = []"
    by (simp_all add: trim_join_sp join_sp_Nil)
  have "chunk_loop up (split_sentences p) (map join_sp []) (join_sp []) =
        (map join_sp G, join_sp g)"
    using chunk_loop_groups [of "split_sentences p" "[]" up "[]"] r
    by (simp add: split_sentences_pieces sentences_of_def)
  then show ?thesis
    using r t n by (simp add: paragraph_chunks_def groups_of_def)
qed

subsection \<open>Paragraphs of the sentence-based branch\<close>

lemma locate_group_head:
  "concat G = A @ x # B \<Longrightarrow> list_all (\<lambda>g. g \<noteq> [] \<and> x \<notin> set (tl g)) G \<Longrightarrow>
   \<exists>G1 q G2. G = G1 @ (x # q) # G2 \<and> concat G1 = A \<and> q @ concat G2 = B"
proof (induction G arbitrary: A)
  case Nil
  then show ?case by simp
next
  case (Cons g G)
  from Cons.prems(2) obtain h t where g: "g = h # t" and xt: "x \<notin> set t"
    and rest: "list_all (\<lambda>g. g \<noteq> [] \<and> x \<notin> set (tl g)) G"
    by (cases g) auto
  show ?case
  proof (cases A)
    case Nil
    with Cons.prems(1) g have "g # G = [] @ (x # t) # G \<and> concat [] = A \<and> t @ concat G = B"
      by simp
    then show ?thesis by blast
  next
    case (Cons a A')
    with Cons.prems(1) g have h: "h = a" and eq: "t @ concat G = A' @ x # B"
      by simp_all
    from eq obtain us where
      "(t = A' @ us \<and> us @ concat G = x # B) \<or> (t @ us = A' \<and> concat G = us @ x # B)"
      by (auto simp: append_eq_append_conv2)
    then have "\<exists>us. t @ us = A' \<and> concat G = us @ x # B"
    proof
      assume a: "t = A' @ us \<and> us @ concat G = x # B"
      show ?thesis
      proof (cases us)
        case Nil
        with a show ?thesis by auto
      next
        case (Cons u us')
        with a have "x \<in> set t" by auto
        with xt show ?thesis by simp
      qed
    next
      assume "t @ us = A' \<and> concat G = us @ x # B"
      then show ?thesis by blast
    qed
    then obtain us where us: "t @ us = A'" "concat G = us @ x # B" by blast
    from Cons.IH [OF us(2) rest] obtain G1 q G2 where
      "G = G1 @ (x # q) # G2" "concat G1 = us" "q @ concat G2 = B"
      by blast
    with g h us(1) Cons have
      "g # G = (g # G1) @ (x # q) # G2 \<and> concat (g # G1) = A \<and> q @ concat G2 = B"
      by simp
    then show ?thesis by blast
  qed
qed

lemma butlast_concat_groups:
  "list_all (\<lambda>g. g \<noteq> []) G \<Longrightarrow> list_all P (butlast (concat G)) \<Longrightarrow>
   list_all (\<lambda>g. list_all P (butlast g)) G"
proof (induction G)
  case Nil
  then show ?case by simp
next
  case (Cons g G)
  show ?case
  proof (cases G)
    case Nil
    with Cons.prems show ?thesis by simp
  next
    case (Cons g' G')
    with Cons.prems(1) have ne: "concat G \<noteq> []" by auto
    have "butlast (concat (g # G)) = g @ butlast (concat G)"
      using ne by (simp only: concat.simps butlast_append if_False)
    with Cons.prems(2) have pg: "list_all P g" and pr: "list_all P (butlast (concat G))"
      by simp_all
    from pg have "list_all P (butlast g)"
      by (auto simp: list_all_iff dest: in_set_butlastD)
    moreover from Cons.prems(1) have "list_all (\<lambda>g. g \<noteq> []) G" by simp
    ultimately show ?thesis using Cons.IH pr by simp
  qed
qed

lemma sentence_groups_ok:
  "list_all (\<lambda>g. g \<noteq> [] \<and> length g \<le> 3 \<and> list_all (\<lambda>s. \<not> keyword_start up s) (tl g))
     (groups_of (\<lambda>g s. keyword_start up s) (\<lambda>g. 3 \<le> length g) ss)"
  by (rule groups_of_invariant
      [where cur = "\<lambda>g. length g < 3 \<and> list_all (\<lambda>s. \<not> keyword_start up s) (tl g)"])
     auto

lemma startsWith_append [simp]: "startsWith (s @ t) s"
  by (simp add: startsWith_def)

lemma startsWith_join_sp: "startsWith (join_sp (x # q)) x"
  by (cases q) (simp_all add: startsWith_def)

lemma keyword_startI:
  "k \<in> set newSectionKeywords \<Longrightarrow> startsWith (up s) k \<Longrightarrow> keyword_start up s"
  by (auto simp: keyword_start_def list_ex_iff)

lemma segment_no_break: "\<not> has_break c \<Longrightarrow> segment up c = sentence_paragraphs up c"
  by (simp add: segment_def split_breaks_no_break)

text \<open>
  C4. When the cleaned text has no structural break, the paragraphs of the sentence-based
  branch are the groups that the loop makes of the sentences, each group joined by single
  spaces. The groups keep the sentences in their order. A group has at most three
  sentences, and no sentence but its first begins with a section keyword. A group is closed
  before the next sentence only when it has three sentences or when that sentence begins
  with a keyword: until then the sentences accumulate in it. So the paragraphs have at most
  three sentences each, and if the upper-casing of the engine leaves an upper-case keyword
  at the start of a sentence in place, then a sentence that begins with SYNOPSIS and a
  later one that begins with TONIGHT each begin a paragraph of their own. Here
  \<open>keyword_start\<close> is the test that \<open>shouldStartNewParagraph\<close> makes when the current
  paragraph is not empty.
\<close>

theorem sentence_paragraphs_keywords:
  assumes "\<not> has_break c"
    and "\<And>k s. k \<in> set newSectionKeywords \<Longrightarrow> startsWith s k \<Longrightarrow> startsWith (up s) k"
    and "sentences_of c = S1 @ x # S2 @ y # S3"
    and "startsWith x (js ''SYNOPSIS'')" and "startsWith y (js ''TONIGHT'')"
  shows "segment up c =
           map join_sp (groups_of (\<lambda>g s. keyword_start up s) (\<lambda>g. 3 \<le> length g)
                          (sentences_of c)) \<and>
         (\<exists>G. segment up c = map join_sp G \<and> concat G = sentences_of c \<and>
               list_all (\<lambda>g. g \<noteq> [] \<and> length g \<le> 3 \<and>
                              list_all (\<lambda>s. \<not> keyword_start up s) (tl g)) G \<and>
               (\<forall>G1 g g' G2. G = G1 @ g # g' # G2 \<longrightarrow>
                    length g = 3 \<or> keyword_start up (hd g'))) \<and>
         list_all (\<lambda>p. length (split_sentences p) \<le> 3) (segment up c) \<and>
         (\<exists>P1 px P2 py P3. segment up c = P1 @ px # P2 @ py # P3 \<and>
               startsWith px x \<and> startsWith py y) \<and>
         (\<forall>s cur. shouldStartNewParagraph up s cur \<longleftrightarrow> cur \<noteq> [] \<and> keyword_start up s)"
proof -
  let ?G = "groups_of (\<lambda>g s. keyword_start up s) (\<lambda>g. 3 \<le> length g) (sentences_of c)"
  have seg: "segment up c = map join_sp ?G"
    using assms(1) by (simp add: segment_no_break sentence_paragraphs_groups)
  have cc: "concat ?G = sentences_of c"
    by (rule groups_of_concat)
  have ok: "list_all (\<lambda>g. g \<noteq> [] \<and> length g \<le> 3 \<and>
              list_all (\<lambda>s. \<not> keyword_start up s) (tl g)) ?G"
    by (rule sentence_groups_ok)
  then have ok3: "list_all (\<lambda>g. g \<noteq> [] \<and> length g \<le> 3) ?G"
    by (simp add: list_all_iff)
  have closed: "length g = 3 \<or> keyword_start up (hd g')" if "?G = G1 @ g # g' # G2" for G1 g g' G2
  proof -
    from groups_of_closed [OF that] have "3 \<le> length g \<or> keyword_start up (hd g')" .
    moreover from ok3 that have "length g \<le> 3" by simp
    ultimately show ?thesis by auto
  qed
  have part1: "\<exists>G. segment up c = map join_sp G \<and> concat G = sentences_of c \<and>
                 list_all (\<lambda>g. g \<noteq> [] \<and> length g \<le> 3 \<and>
                              list_all (\<lambda>s. \<not> keyword_start up s) (tl g)) G \<and>
                 (\<forall>G1 g g' G2. G = G1 @ g # g' # G2 \<longrightarrow>
                      length g = 3 \<or> keyword_start up (hd g'))"
    using seg cc ok closed by blast
  have good: "list_all (list_all good_sentence) ?G"
    using sentences_of_ok [of c] by (intro groups_of_elements) simp
  have stops: "list_all (\<lambda>g. list_all full_stop (butlast g)) ?G"
    using sentences_of_ok [of c] cc ok3
    by (intro butlast_concat_groups) (simp_all add: list_all_iff)
  have part2: "list_all (\<lambda>p. length (split_sentences p) \<le> 3) (segment up c)"
  proof -
    have "\<And>g. g \<in> set ?G \<Longrightarrow> length (split_sentences (join_sp g)) \<le> 3"
    proof -
      fix g assume g: "g \<in> set ?G"
      with ok3 good stops have "g \<noteq> []" "length g \<le> 3" "list_all good_sentence g"
        "list_all full_stop (butlast g)"
        by (simp_all add: list_all_iff)
      then show "length (split_sentences (join_sp g)) \<le> 3"
        by (simp add: split_sentences_join_sp_length)
    qed
    then show ?thesis by (simp add: seg list_all_iff)
  qed
  have kx: "keyword_start up x"
    using assms(2) [OF _ assms(4)] by (intro keyword_startI [of "js ''SYNOPSIS''"])
      (simp_all add: newSectionKeywords_def)
  have ky: "keyword_start up y"
    using assms(2) [OF _ assms(5)] by (intro keyword_startI [of "js ''TONIGHT''"])
      (simp_all add: newSectionKeywords_def)
  have hx: "list_all (\<lambda>g. g \<noteq> [] \<and> x \<notin> set (tl g)) ?G"
    using ok kx by (auto simp: list_all_iff)
  have hy: "list_all (\<lambda>g. g \<noteq> [] \<and> y \<notin> set (tl g)) ?G"
    using ok ky by (auto simp: list_all_iff)
  from cc assms(3) have "concat ?G = S1 @ x # (S2 @ y # S3)" by simp
  from locate_group_head [OF this hx] obtain G1 qx G2 where
    d1: "?G = G1 @ (x # qx) # G2" "concat G1 = S1" "qx @ concat G2 = S2 @ y # S3"
    by blast
  from hy d1(1) have yq: "y \<notin> set qx" and hy2: "list_all (\<lambda>g. g \<noteq> [] \<and> y \<notin> set (tl g)) G2"
    by simp_all
  from d1(3) obtain us where
    "(qx = S2 @ us \<and> us @ concat G2 = y # S3) \<or> (qx @ us = S2 \<and> concat G2 = us @ y # S3)"
    by (auto simp: append_eq_append_conv2)
  then have "\<exists>us. concat G2 = us @ y # S3"
  proof
    assume a: "qx = S2 @ us \<and> us @ concat G2 = y # S3"
    show ?thesis
    proof (cases us)
      case Nil
      with a have "concat G2 = [] @ y # S3" by simp
      then show ?thesis by blast
    next
      case (Cons u us')
      with a have "y \<in> set qx" by auto
      with yq show ?thesis by simp
    qed
  next
    assume "qx @ us = S2 \<and> concat G2 = us @ y # S3"
    then show ?thesis by blast
  qed
  then obtain us where "concat G2 = us @ y # S3" by blast
  from locate_group_head [OF this hy2] obtain G3 qy G4 where
    d2: "G2 = G3 @ (y # qy) # G4"
    by blast
  have "segment up c = map join_sp G1 @ join_sp (x # qx) # map join_sp G3 @
          join_sp (y # qy) # map join_sp G4"
    using seg d1(1) d2 by simp
  then have part3: "\<exists>P1 px P2 py P3. segment up c = P1 @ px # P2 @ py # P3 \<and>
                      startsWith px x \<and> startsWith py y"
    using startsWith_join_sp by blast
  have part4: "\<forall>s cur. shouldStartNewParagraph up s cur \<longleftrightarrow> cur \<noteq> [] \<and> keyword_start up s"
    by (simp add: shouldStartNewParagraph_keyword_start)
  from seg part1 part2 part3 part4 show ?thesis by blast
qed


lemma keywords_upper_case: "list_all (\<lambda>k. map canon k = k) newSectionKeywords"
  by (simp add: newSectionKeywords_def js_def canon_def)

lemma toUpperCase_ascii_keyword:
  assumes "k \<in> set newSectionKeywords" and "startsWith s k"
  shows "startsWith (toUpperCase_ascii s) k"
proof -
  from assms(1) keywords_upper_case have "map canon k = k"
    by (simp add: list_all_iff)
  moreover from assms(2) have "map canon (take (length k) s) = map canon k"
    by (simp add: startsWith_def)
  ultimately show ?thesis
    by (simp add: startsWith_def toUpperCase_ascii_def take_map)
qed

lemma c4_example_no_break: "\<not> has_break (js ''SYNOPSIS. Rain. Fog. Wind. TONIGHT. Calm.'')"
  by (simp add: js_def)

lemma c4_example_sentences:
  "sentences_of (js ''SYNOPSIS. Rain. Fog. Wind. TONIGHT. Calm.'') =
     [] @ js ''SYNOPSIS.'' # [js ''Rain.'', js ''Fog.'', js ''Wind.''] @ js ''TONIGHT.'' # [js ''Calm.'']"
  by (simp add: sentences_of_def eval_simps del: eval_del)

lemma c4_example_groups:
  "map join_sp (groups_of (\<lambda>g s. keyword_start toUpperCase_ascii s) (\<lambda>g. 3 \<le> length g)
     ([] @ js ''SYNOPSIS.'' # [js ''Rain.'', js ''Fog.'', js ''Wind.''] @ js ''TONIGHT.'' # [js ''Calm.''])) =
   [js ''SYNOPSIS. Rain. Fog.'', js ''Wind.'', js ''TONIGHT. Calm.'']"
  by (simp add: groups_of_def keyword_start_def newSectionKeywords_def startsWith_def
      toUpperCase_ascii_def js_def canon_def)

theorem sentence_paragraphs_keywords_witness:
  "\<not> has_break (js ''SYNOPSIS. Rain. Fog. Wind. TONIGHT. Calm.'') \<and>
   sentences_of (js ''SYNOPSIS. Rain. Fog. Wind. TONIGHT. Calm.'') =
     [js ''SYNOPSIS.'', js ''Rain.'', js ''Fog.'', js ''Wind.'', js ''TONIGHT.'', js ''Calm.''] \<and>
   segment toUpperCase_ascii (js ''SYNOPSIS. Rain. Fog. Wind. TONIGHT. Calm.'') =
     [js ''SYNOPSIS. Rain. Fog.'', js ''Wind.'', js ''TONIGHT. Calm.'']"
proof -
  have x: "startsWith (js ''SYNOPSIS.'') (js ''SYNOPSIS'')"
    by (simp add: startsWith_def js_def)
  have y: "startsWith (js ''TONIGHT.'') (js ''TONIGHT'')"
    by (simp add: startsWith_def js_def)
  from sentence_paragraphs_keywords
    [OF c4_example_no_break toUpperCase_ascii_keyword c4_example_sentences x y]
  have "segment toUpperCase_ascii (js ''SYNOPSIS. Rain. Fog. Wind. TONIGHT. Calm.'') =
        map join_sp (groups_of (\<lambda>g s. keyword_start toUpperCase_ascii s) (\<lambda>g. 3 \<le> length g)
          (sentences_of (js ''SYNOPSIS. Rain. Fog. Wind. TONIGHT. Calm.'')))"
    by (rule conjunct1)
  then have "segment toUpperCase_ascii (js ''SYNOPSIS. Rain. Fog. Wind. TONIGHT. Calm.'') =
        [js ''SYNOPSIS. Rain. Fog.'', js ''Wind.'', js ''TONIGHT. Calm.'']"
    unfolding c4_example_sentences c4_example_groups .
  with c4_example_no_break c4_example_sentences show ?thesis by simp
qed

subsection \<open>Text that the cleaning leaves as it is\<close>

lemma remove_usagov_plain: "list_all (\<lambda>c. canon c \<noteq> 85) s \<Longrightarrow> remove_usagov s = s"
proof (induction s)
  case Nil
  then show ?case by simp
next
  case (Cons c cs)
  then have "\<not> ci_prefix (js ''usa.gov'') (c # cs)"
    by (simp add: js_def canon_def)
  with Cons show ?case by simp
qed

lemma bullet_line_plain: "list_all (\<lambda>c. \<not> is_line_bullet c) s \<Longrightarrow> bullet_line s = None"
proof -
  assume a: "list_all (\<lambda>c. \<not> is_line_bullet c) s"
  have h: "list_all (\<lambda>c. \<not> is_line_bullet c) (dropWhile is_space s)"
    using a by (rule list_all_dropWhile)
  show ?thesis
  proof (cases "dropWhile is_space s")
    case Nil
    show ?thesis unfolding bullet_line_def Nil by simp
  next
    case (Cons b r)
    with h have "\<not> is_line_bullet b" by simp
    then show ?thesis unfolding bullet_line_def Cons by simp
  qed
qed

lemma remove_bullet_lines_plain:
  "list_all (\<lambda>c. \<not> is_line_bullet c) s \<Longrightarrow> remove_bullet_lines prev s = s"
proof (induction s arbitrary: prev)
  case Nil
  then show ?case by simp
next
  case (Cons c cs)
  from Cons.prems have "bullet_line (c # cs) = None" by (rule bullet_line_plain)
  with Cons show ?case by simp
qed

lemma replace_inline_bullets_plain:
  "list_all (\<lambda>c. \<not> is_inline_bullet c) s \<Longrightarrow> replace_inline_bullets s = s"
proof (induction s)
  case Nil
  then show ?case by simp
next
  case (Cons c cs)
  have h: "list_all (\<lambda>c. \<not> is_inline_bullet c) (dropWhile is_space (c # cs))"
    using Cons.prems by (rule list_all_dropWhile)
  from Cons have ih: "replace_inline_bullets cs = cs" by simp
  show ?case
  proof (cases "dropWhile is_space (c # cs)")
    case Nil
    show ?thesis unfolding replace_inline_bullets.simps Nil using ih by simp
  next
    case (Cons b r)
    with h have "\<not> is_inline_bullet b" by simp
    then show ?thesis unfolding replace_inline_bullets.simps Cons using ih by simp
  qed
qed

lemma collapse_blanks_plain: "list_all (\<lambda>c. \<not> is_blank c) s \<Longrightarrow> collapse_blanks s = s"
  by (induction s) auto

lemma strip_line_indent_plain: "list_all (\<lambda>c. \<not> is_blank c) s \<Longrightarrow> strip_line_indent s = s"
proof (induction s)
  case Nil
  then show ?case by simp
next
  case (Cons c cs)
  then have "takeWhile is_blank cs = []"
    by (cases cs) auto
  with Cons show ?case by simp
qed

text \<open>Blocks of text without dots and newlines, each closed by a dot and set apart by blank lines.\<close>

lemma collapse_newlines_block:
  "list_all (\<lambda>c. c \<noteq> 10) b \<Longrightarrow> collapse_newlines (b @ s) = b @ collapse_newlines s"
  by (induction b) auto

lemma collapse_newlines_blank_line:
  "q \<noteq> [] \<Longrightarrow> hd q \<noteq> 10 \<Longrightarrow> collapse_newlines (10 # 10 # q) = 10 # 10 # collapse_newlines q"
  by (cases q) auto

lemma split_breaks_block:
  "list_all (\<lambda>c. c \<noteq> 10 \<and> c \<noteq> 46) b \<Longrightarrow> q \<noteq> [] \<Longrightarrow> hd q \<noteq> 10 \<Longrightarrow>
   split_breaks (b @ 46 # 10 # 10 # q) = (b @ [46]) # split_breaks q"
proof (induction b)
  case Nil
  then show ?case by (cases q) auto
next
  case (Cons c b)
  then show ?case by simp
qed

lemma split_breaks_last_block:
  "list_all (\<lambda>c. c \<noteq> 10 \<and> c \<noteq> 46) b \<Longrightarrow> split_breaks (b @ [46]) = [b @ [46]]"
  by (induction b) auto

lemma split_sentences_stop:
  assumes "no_dot_space (b @ [46])" and "w \<noteq> []" and "list_all is_space w"
    and "t = [] \<or> \<not> is_space (hd t)"
  shows "split_sentences (b @ 46 # w @ t) = b # split_sentences t"
proof -
  from assms(3,4) have d: "dropWhile is_space (w @ t) = t"
    by (cases t) (auto simp: list_all_iff dropWhile_append)
  from assms(2,3) have "takeWhile is_space (w @ t) \<noteq> []"
    by (cases w) auto
  with d have "split_sentences (46 # w @ t) = [] # split_sentences t"
    by simp
  moreover have "no_dot_space (b @ take 1 (46 # w @ t))"
    using assms(1) by simp
  ultimately show ?thesis
    using split_sentences_glue [of b "46 # w @ t"] by simp
qed


lemma blocks_all:
  "list_all Q b \<Longrightarrow> Q 46 \<Longrightarrow> Q 10 \<Longrightarrow> list_all Q (blocks b n)"
  by (induction n) auto

lemma blocks_ends: "b \<noteq> [] \<Longrightarrow> blocks b n \<noteq> [] \<and> hd (blocks b n) = hd b \<and> last (blocks b n) = 46"
  by (induction n) auto

lemma plain_letters_all:
  assumes "plain_letters b" and "\<And>c. 97 \<le> c \<Longrightarrow> c \<le> 122 \<Longrightarrow> c \<noteq> 117 \<Longrightarrow> Q c"
  shows "list_all Q b"
  using assms by (auto simp: plain_letters_def list_all_iff)

lemma plain_letters_hd:
  assumes "plain_letters b"
  shows "b \<noteq> [] \<and> 97 \<le> hd b \<and> hd b \<le> 122"
proof -
  from assms obtain c cs where "b = c # cs"
    by (cases b) (auto simp: plain_letters_def)
  with assms show ?thesis by (simp add: plain_letters_def)
qed

lemma collapse_newlines_blocks:
  assumes "plain_letters b"
  shows "collapse_newlines (blocks b n) = blocks b n"
proof (induction n)
  case 0
  have "list_all (\<lambda>c. c \<noteq> 10) (b @ [46])"
    using plain_letters_all [OF assms, of "\<lambda>c. c \<noteq> 10"] by simp
  from collapse_newlines_block [OF this, of "[]"] show ?case by simp
next
  case (Suc n)
  have a: "list_all (\<lambda>c. c \<noteq> 10) (b @ [46])"
    using plain_letters_all [OF assms, of "\<lambda>c. c \<noteq> 10"] by simp
  from plain_letters_hd [OF assms] have "b \<noteq> []" "hd b \<noteq> 10"
    by simp_all
  then have e: "blocks b n \<noteq> []" "hd (blocks b n) \<noteq> 10"
    using blocks_ends [of b n] by simp_all
  have "collapse_newlines (blocks b (Suc n)) =
        (b @ [46]) @ collapse_newlines (10 # 10 # blocks b n)"
    using collapse_newlines_block [OF a, of "10 # 10 # blocks b n"] by simp
  also have "\<dots> = (b @ [46]) @ 10 # 10 # collapse_newlines (blocks b n)"
    using collapse_newlines_blank_line [OF e] by simp
  finally show ?case using Suc by simp
qed

lemma cleanText_blocks:
  assumes "plain_letters b"
  shows "cleanText (blocks b n) = blocks b n"
proof -
  have q1: "list_all (\<lambda>c. canon c \<noteq> 85) b"
    by (rule plain_letters_all [OF assms]) (simp add: canon_def)
  have q2: "list_all (\<lambda>c. \<not> is_line_bullet c) b"
    by (rule plain_letters_all [OF assms]) (simp add: is_line_bullet_def)
  have q3: "list_all (\<lambda>c. \<not> is_inline_bullet c) b"
    by (rule plain_letters_all [OF assms]) (simp add: is_inline_bullet_def)
  have q4: "list_all (\<lambda>c. \<not> is_blank c) b"
    by (rule plain_letters_all [OF assms]) (simp add: is_blank_def)
  have u: "remove_usagov (blocks b n) = blocks b n"
    by (rule remove_usagov_plain, rule blocks_all [OF q1]) (simp_all add: canon_def)
  have l: "remove_bullet_lines None (blocks b n) = blocks b n"
    by (rule remove_bullet_lines_plain, rule blocks_all [OF q2]) (simp_all add: is_line_bullet_def)
  have i: "replace_inline_bullets (blocks b n) = blocks b n"
    by (rule replace_inline_bullets_plain, rule blocks_all [OF q3])
       (simp_all add: is_inline_bullet_def)
  have c: "collapse_blanks (blocks b n) = blocks b n"
    by (rule collapse_blanks_plain, rule blocks_all [OF q4]) (simp_all add: is_blank_def)
  have s: "strip_line_indent (blocks b n) = blocks b n"
    by (rule strip_line_indent_plain, rule blocks_all [OF q4]) (simp_all add: is_blank_def)
  from plain_letters_hd [OF assms] have "b \<noteq> []" "\<not> is_space (hd b)"
    by (simp_all add: is_space_def)
  moreover have "\<not> is_space 46" by (simp add: is_space_def)
  ultimately have t: "trim (blocks b n) = blocks b n"
    using blocks_ends [of b n] by (intro trim_unchanged) simp_all
  show ?thesis
    unfolding cleanText_def u l i c s collapse_newlines_blocks [OF assms] t ..
qed

lemma split_breaks_blocks:
  assumes "plain_letters b"
  shows "split_breaks (blocks b n) = replicate (Suc n) (b @ [46])"
proof (induction n)
  case 0
  have "list_all (\<lambda>c. c \<noteq> 10 \<and> c \<noteq> 46) b"
    by (rule plain_letters_all [OF assms]) simp
  then show ?case by (simp add: split_breaks_last_block del: split_breaks.simps)
next
  case (Suc n)
  have a: "list_all (\<lambda>c. c \<noteq> 10 \<and> c \<noteq> 46) b"
    by (rule plain_letters_all [OF assms]) simp
  from plain_letters_hd [OF assms] have "b \<noteq> []" "hd b \<noteq> 10"
    by simp_all
  then have e: "blocks b n \<noteq> []" "hd (blocks b n) \<noteq> 10"
    using blocks_ends [of b n] by simp_all
  from split_breaks_block [OF a e] Suc show ?case
    by (simp del: split_breaks.simps)
qed

lemma no_dot_space_plain: "list_all (\<lambda>c. c \<noteq> 46) b \<Longrightarrow> no_dot_space b"
  by (induction b rule: no_dot_space.induct) auto

lemma split_sentences_blocks:
  assumes "plain_letters b"
  shows "split_sentences (blocks b n) = replicate n b @ [b @ [46]]"
proof (induction n)
  case 0
  have "list_all (\<lambda>c. c \<noteq> 46) b"
    by (rule plain_letters_all [OF assms]) simp
  then have "no_dot_space (b @ [46])"
    by (simp add: no_dot_space_plain no_dot_space_snoc is_space_def)
  then show ?case by (simp add: split_sentences_no_break del: split_sentences.simps)
next
  case (Suc n)
  have "list_all (\<lambda>c. c \<noteq> 46) b"
    by (rule plain_letters_all [OF assms]) simp
  then have nd: "no_dot_space (b @ [46])"
    by (simp add: no_dot_space_plain no_dot_space_snoc is_space_def)
  from plain_letters_hd [OF assms] have "b \<noteq> []" "\<not> is_space (hd b)"
    by (simp_all add: is_space_def)
  then have e: "blocks b n = [] \<or> \<not> is_space (hd (blocks b n))"
    using blocks_ends [of b n] by simp
  have w: "[10, 10] \<noteq> ([] :: jsstring)" "list_all is_space [10, 10]"
    by (simp_all add: is_space_def)
  from split_sentences_stop [OF nd w e] Suc show ?case
    by (simp add: replicate_app_Cons_same del: split_sentences.simps)
qed

lemma length_trim_le: "length (trim s) \<le> length s"
proof -
  have "length (dropWhile is_space (rev (dropWhile is_space s))) \<le>
        length (rev (dropWhile is_space s))"
    by (rule length_dropWhile_le)
  also have "\<dots> \<le> length s"
    by (simp add: length_dropWhile_le)
  finally show ?thesis by (simp add: trim_def)
qed

lemma segment_blocks:
  assumes "plain_letters b" and "length b < 15" and "0 < n"
  shows "segment up (blocks b n) = []"
proof -
  have "length (trim (b @ [46])) \<le> 15"
    using length_trim_le [of "b @ [46]"] assms(2) by simp
  then have "filter (\<lambda>p. 15 < length p) (map trim (replicate (Suc n) (b @ [46]))) = []"
    by (simp add: filter_empty_conv)
  with assms(3) show ?thesis
    unfolding segment_def split_breaks_blocks [OF assms(1)] Let_def by simp
qed

lemma fragments_fallback: "segment up c = [] \<Longrightarrow> fragments up c = [newlines_to_br c]"
  by (simp add: fragments_def final_paragraphs_def)

lemma length_newlines_to_br: "length s \<le> length (newlines_to_br s)"
  by (induction s) (auto simp: newlines_to_br_def js_def)

lemma length_blocks: "length (blocks b n) = Suc n * (length b + 1) + 2 * n"
  by (induction n) auto

lemma length_nonspace_blocks:
  assumes "plain_letters b"
  shows "length (nonspace (blocks b n)) = Suc n * (length b + 1)"
proof -
  have "list_all (\<lambda>c. \<not> is_space c) b"
    by (rule plain_letters_all [OF assms]) (simp add: is_space_def)
  then have b: "nonspace b = b"
    by (simp add: nonspace_def list_all_iff)
  have "nonspace (blocks b n) = concat (replicate (Suc n) (b @ [46]))"
  proof (induction n)
    case 0
    with b show ?case by (simp add: nonspace_def is_space_def)
  next
    case (Suc n)
    have "nonspace (blocks b (Suc n)) = nonspace b @ nonspace [46, 10, 10] @ nonspace (blocks b n)"
      by (simp add: nonspace_def)
    with b Suc show ?case by (simp add: nonspace_def is_space_def)
  qed
  then show ?thesis by (simp add: length_concat sum_list_replicate)
qed

lemma c5_example_letters: "plain_letters (js ''abcdefghijklmn'')"
  by (simp add: plain_letters_def js_def)

text \<open>
  C5, as stated, fails. The text of 47 lines "abcdefghijklmn." with blank lines between
  them is left as it is by the cleaning, and its sentences have at most 15 characters. The
  first tier splits it into 47 pieces of 15 characters and keeps none, so the fallback
  emits the whole text as one fragment: 705 characters without counting white space and
  markup.
\<close>

theorem fragments_fallback_unbounded:
  "cleanText (blocks (js ''abcdefghijklmn'') 46) = blocks (js ''abcdefghijklmn'') 46 \<and>
   list_all (\<lambda>q. length q \<le> 15)
     (split_sentences (cleanText (blocks (js ''abcdefghijklmn'') 46))) \<and>
   fragments toUpperCase_ascii (cleanText (blocks (js ''abcdefghijklmn'') 46)) =
     [newlines_to_br (blocks (js ''abcdefghijklmn'') 46)] \<and>
   length (nonspace (blocks (js ''abcdefghijklmn'') 46)) = 705 \<and>
   \<not> list_all (\<lambda>f. length f \<le> 700)
       (fragments toUpperCase_ascii (cleanText (blocks (js ''abcdefghijklmn'') 46)))"
proof -
  let ?b = "js ''abcdefghijklmn''"
  let ?c = "blocks ?b 46"
  note pl = c5_example_letters
  have len: "length ?b = 14" by (simp add: js_def)
  have cl: "cleanText ?c = ?c" by (rule cleanText_blocks [OF pl])
  have "split_sentences ?c = replicate 46 ?b @ [?b @ [46]]"
    by (rule split_sentences_blocks [OF pl])
  then have ss: "list_all (\<lambda>q. length q \<le> 15) (split_sentences ?c)"
    by (simp add: len list_all_iff)
  have "segment toUpperCase_ascii ?c = []"
    by (rule segment_blocks [OF pl]) (simp_all add: len)
  then have fr: "fragments toUpperCase_ascii ?c = [newlines_to_br ?c]"
    by (rule fragments_fallback)
  have ns: "length (nonspace ?c) = 705"
    by (simp add: length_nonspace_blocks [OF pl] len)
  have "length ?c = 797"
    by (simp add: length_blocks len)
  with length_newlines_to_br [of ?c] have "700 < length (newlines_to_br ?c)"
    by simp
  with fr have big: "\<not> list_all (\<lambda>f. length f \<le> 700) (fragments toUpperCase_ascii ?c)"
    by simp
  from cl ss fr ns big show ?thesis
    by (simp only: cl) simp
qed

subsection \<open>The chunks of a long paragraph\<close>

lemma chunk_groups_ok:
  "list_all (\<lambda>g. g \<noteq> [] \<and> (length (join_sp g) \<le> 350 \<or> length g = 1) \<and>
                  list_all (\<lambda>s. \<not> keyword_start up s) (tl g))
     (groups_of (\<lambda>g s. 350 < length (join_sp g @ [32] @ s) \<or> keyword_start up s)
        (\<lambda>g. False) ss)"
proof (rule groups_of_invariant
    [where cur = "\<lambda>g. g = [] \<or> (length (join_sp g) \<le> 350 \<or> length g = 1) \<and>
                        list_all (\<lambda>s. \<not> keyword_start up s) (tl g)"])
  fix g :: "jsstring list" and s :: jsstring
  assume "g = [] \<or> (length (join_sp g) \<le> 350 \<or> length g = 1) \<and>
            list_all (\<lambda>s. \<not> keyword_start up s) (tl g)"
    and "g \<noteq> []"
    and "\<not> (350 < length (join_sp g @ [32] @ s) \<or> keyword_start up s)"
  then show "g @ [s] \<noteq> [] \<and> (length (join_sp (g @ [s])) \<le> 350 \<or> length (g @ [s]) = 1) \<and>
             list_all (\<lambda>s. \<not> keyword_start up s) (tl (g @ [s]))"
    by (auto simp: join_sp_snoc)
qed auto

lemma prepare_sentences_length:
  "list_all (\<lambda>q. length q < n) pieces \<Longrightarrow>
   list_all (\<lambda>s. length s \<le> n) (prepare_sentences pieces)"
proof (induction pieces)
  case Nil
  then show ?case by simp
next
  case (Cons raw rest)
  have "length (trim raw) \<le> length raw" by (rule length_trim_le)
  with Cons show ?case by auto
qed

lemma length_join_sp_single: "length g = 1 \<Longrightarrow> join_sp g = hd g"
  by (cases g) auto

lemma paragraph_chunks_bounded:
  assumes "list_all (\<lambda>q. length q < n) (split_sentences p)" and "350 \<le> n"
  shows "list_all (\<lambda>f. length f \<le> n) (paragraph_chunks up p)"
proof -
  let ?G = "groups_of (\<lambda>g s. 350 < length (join_sp g @ [32] @ s) \<or> keyword_start up s)
              (\<lambda>g. False) (sentences_of p)"
  have sl: "list_all (\<lambda>s. length s \<le> n) (sentences_of p)"
    unfolding sentences_of_def using assms(1) by (rule prepare_sentences_length)
  then have el: "list_all (list_all (\<lambda>s. length s \<le> n)) ?G"
    by (rule groups_of_elements)
  have "\<And>g. g \<in> set ?G \<Longrightarrow> length (join_sp g) \<le> n"
  proof -
    fix g assume g: "g \<in> set ?G"
    with chunk_groups_ok [of up "sentences_of p"]
    have c: "g \<noteq> []" "length (join_sp g) \<le> 350 \<or> length g = 1"
      by (auto simp: list_all_iff)
    from g el have "list_all (\<lambda>s. length s \<le> n) g" by (simp add: list_all_iff)
    with c(1) have "length (hd g) \<le> n" by (cases g) auto
    with c(2) assms(2) show "length (join_sp g) \<le> n"
      by (auto simp: length_join_sp_single)
  qed
  then show ?thesis
    by (simp add: paragraph_chunks_groups list_all_iff)
qed

subsection \<open>Paragraphs are trimmed\<close>

lemma trim_Nil: "trim s = [] \<Longrightarrow> list_all is_space s"
proof -
  assume a: "trim s = []"
  obtain u v where "s = u @ trim s @ v" "list_all is_space u" "list_all is_space v"
    using trim_decomp by blast
  with a show ?thesis by (metis append_Nil list_all_append)
qed

lemma trim_trimmed: "trim s \<noteq> [] \<Longrightarrow> trimmed (trim s)"
  by (simp add: trimmed_def trim_ends)

lemma trimmed_trim: "trimmed p \<Longrightarrow> trim p = p"
  by (simp add: trimmed_def trim_unchanged)

lemma join_sp_trimmed: "g \<noteq> [] \<Longrightarrow> list_all good_sentence g \<Longrightarrow> trimmed (join_sp g)"
proof -
  assume a: "g \<noteq> []" "list_all good_sentence g"
  then have "good_sentence (hd g)" "good_sentence (last g)"
    by (cases g, auto simp: list_all_iff)
  with join_sp_ends [OF a] show ?thesis
    by (simp add: trimmed_def good_sentence_def)
qed

lemma groups_of_trimmed:
  "list_all trimmed (map join_sp (groups_of pre post (sentences_of p)))"
proof -
  have "list_all (list_all good_sentence) (groups_of pre post (sentences_of p))"
    using sentences_of_ok [of p] by (intro groups_of_elements) simp
  moreover have "list_all (\<lambda>g. g \<noteq> []) (groups_of pre post (sentences_of p))"
    by (rule groups_of_not_Nil)
  ultimately show ?thesis
    by (simp add: list_all_iff join_sp_trimmed)
qed

lemma segment_trimmed: "list_all trimmed (segment up c)"
proof (cases "length (split_breaks c) = 1")
  case True
  then show ?thesis
    by (simp add: segment_def sentence_paragraphs_groups groups_of_trimmed
        del: split_breaks.simps)
next
  case False
  have "\<And>p. 15 < length (trim p) \<Longrightarrow> trimmed (trim p)"
    by (rule trim_trimmed) auto
  with False show ?thesis
    by (auto simp: segment_def list_all_iff simp del: split_breaks.simps)
qed

lemma final_paragraphs_trimmed: "list_all trimmed (final_paragraphs up c)"
  using segment_trimmed [of up c]
  by (simp add: final_paragraphs_def Let_def forceParagraphBreaks_groups groups_of_trimmed)

lemma split_sentences_last:
  "s \<noteq> [] \<Longrightarrow> \<not> is_space (last s) \<Longrightarrow>
   last (split_sentences s) \<noteq> [] \<and> last (last (split_sentences s)) = last s"
proof (induction s rule: split_sentences.induct)
  case 1
  then show ?case by simp
next
  case (2 c cs)
  show ?case
  proof (cases "c = 46 \<and> takeWhile is_space cs \<noteq> []")
    case True
    then have cne: "cs \<noteq> []" by auto
    with "2.prems" have lc: "\<not> is_space (last cs)" by simp
    have dn: "dropWhile is_space cs \<noteq> []"
    proof
      assume "dropWhile is_space cs = []"
      then have "\<forall>x\<in>set cs. is_space x" by (simp only: dropWhile_eq_Nil_conv)
      with cne lc show False using last_in_set by blast
    qed
    then have dl: "last (dropWhile is_space cs) = last cs"
      by (metis last_appendR takeWhile_dropWhile_id)
    from True "2.IH"(1) dn dl lc
    have "last (split_sentences (dropWhile is_space cs)) \<noteq> [] \<and>
          last (last (split_sentences (dropWhile is_space cs))) = last cs"
      by simp
    with True cne show ?thesis
      by (simp del: takeWhile.simps dropWhile.simps)
  next
    case False
    obtain p ps where sp: "split_sentences cs = p # ps"
      by (cases "split_sentences cs") auto
    from False sp have r: "split_sentences (c # cs) = (c # p) # ps"
      by (simp del: takeWhile.simps)
    show ?thesis
    proof (cases "cs = []")
      case True
      with sp have "p = []" "ps = []" by simp_all
      with r True show ?thesis by simp
    next
      case cne: False
      with "2.prems" have "\<not> is_space (last cs)" by simp
      with False cne "2.IH"(2) sp have ih: "last (p # ps) \<noteq> [] \<and> last (last (p # ps)) = last cs"
        by simp
      with r cne show ?thesis by (cases ps) auto
    qed
  qed
qed

lemma prepare_sentences_not_Nil:
  "pieces \<noteq> [] \<Longrightarrow> trim (last pieces) \<noteq> [] \<Longrightarrow> prepare_sentences pieces \<noteq> []"
  by (induction pieces) (auto split: if_splits)

lemma sentences_of_trimmed: "trimmed p \<Longrightarrow> sentences_of p \<noteq> []"
proof -
  assume a: "trimmed p"
  then have l: "last (split_sentences p) \<noteq> []"
    "last (last (split_sentences p)) = last p" "\<not> is_space (last p)"
    using split_sentences_last [of p] by (simp_all add: trimmed_def)
  have "trim (last (split_sentences p)) \<noteq> []"
  proof
    assume "trim (last (split_sentences p)) = []"
    then have "list_all is_space (last (split_sentences p))" by (rule trim_Nil)
    with l(1) have "is_space (last (last (split_sentences p)))"
      by (simp add: list_all_iff)
    with l(2,3) show False by simp
  qed
  then show ?thesis
    unfolding sentences_of_def by (intro prepare_sentences_not_Nil) simp_all
qed

lemma groups_of_Nil: "groups_of pre post ss = [] \<Longrightarrow> ss = []"
  using groups_of_concat [of pre post ss] by simp

lemma paragraph_chunks_not_Nil: "trimmed p \<Longrightarrow> paragraph_chunks up p \<noteq> []"
  using sentences_of_trimmed [of p] groups_of_Nil
  by (auto simp: paragraph_chunks_groups)

lemma forceParagraphBreaks_not_Nil: "trimmed p \<Longrightarrow> forceParagraphBreaks p \<noteq> []"
  using sentences_of_trimmed [of p] groups_of_Nil
  by (auto simp: forceParagraphBreaks_groups)

lemma final_paragraphs_not_Nil: "segment up c \<noteq> [] \<Longrightarrow> final_paragraphs up c \<noteq> []"
proof -
  assume a: "segment up c \<noteq> []"
  then have "trimmed (hd (segment up c))"
    using segment_trimmed [of up c] by (cases "segment up c") simp_all
  with a show ?thesis
    by (simp add: final_paragraphs_def Let_def forceParagraphBreaks_not_Nil)
qed

lemma fragments_no_fallback:
  assumes "segment up c \<noteq> []"
  shows "fragments up c =
     concat (map (\<lambda>p. if 700 < length p then paragraph_chunks up p else [p])
               (final_paragraphs up c))"
proof -
  obtain p ps where f: "final_paragraphs up c = p # ps"
    using final_paragraphs_not_Nil [OF assms] by (cases "final_paragraphs up c") auto
  with final_paragraphs_trimmed [of up c] have "trimmed p" by simp
  then have "(if 700 < length p then paragraph_chunks up p else [p]) \<noteq> []"
    by (simp add: paragraph_chunks_not_Nil)
  with f show ?thesis
    by (simp add: fragments_def Let_def)
qed


text \<open>
  C5, amended. Whenever segmentation yields at least one paragraph and every sentence piece
  of every paragraph has fewer than 700 characters, no fragment emitted before highlighting
  has more than 700 characters: the fragments are the paragraphs of at most 700 characters
  and the chunks of the longer ones. The chunks of a paragraph are its sentences, in their
  order, joined by single spaces in groups; a group is closed when the next sentence would
  bring it over 350 characters or begins with a section keyword, so a chunk of more than 350
  characters is one sentence, and no sentence but the first of a chunk begins with a
  keyword; and a group is closed before the next sentence only then, so that the sentences
  accumulate in a chunk until one of the two happens. (When segmentation yields no
  paragraph, the fallback emits the whole cleaned text as one fragment, of any length.)
\<close>

theorem long_paragraphs_chunked:
  assumes "segment up c \<noteq> []"
    and "list_all (\<lambda>p. list_all (\<lambda>q. length q < 700) (split_sentences p)) (final_paragraphs up c)"
  shows "list_all (\<lambda>f. length f \<le> 700) (fragments up c) \<and>
         fragments up c =
           concat (map (\<lambda>p. if 700 < length p then paragraph_chunks up p else [p])
                     (final_paragraphs up c)) \<and>
         assemble up c = concat (map p_element (fragments up c)) \<and>
         (\<exists>G. paragraph_chunks up p = map join_sp G \<and> concat G = sentences_of p \<and>
              list_all (\<lambda>g. g \<noteq> [] \<and> (length (join_sp g) \<le> 350 \<or> length g = 1) \<and>
                             list_all (\<lambda>s. \<not> keyword_start up s) (tl g)) G \<and>
              (\<forall>G1 g g' G2. G = G1 @ g # g' # G2 \<longrightarrow>
                   350 < length (join_sp g @ [32] @ hd g') \<or> keyword_start up (hd g')))"
proof -
  let ?pre = "\<lambda>g s. 350 < length (join_sp g @ [32] @ s) \<or> keyword_start up s"
  let ?G = "groups_of ?pre (\<lambda>g. False) (sentences_of p)"
  have fr: "fragments up c =
     concat (map (\<lambda>p. if 700 < length p then paragraph_chunks up p else [p])
               (final_paragraphs up c))"
    using assms(1) by (rule fragments_no_fallback)
  have "\<And>q. q \<in> set (final_paragraphs up c) \<Longrightarrow>
          list_all (\<lambda>f. length f \<le> 700) (if 700 < length q then paragraph_chunks up q else [q])"
  proof -
    fix q assume "q \<in> set (final_paragraphs up c)"
    with assms(2) have "list_all (\<lambda>r. length r < 700) (split_sentences q)"
      by (simp add: list_all_iff)
    then have "list_all (\<lambda>f. length f \<le> 700) (paragraph_chunks up q)"
      by (rule paragraph_chunks_bounded) simp
    then show "list_all (\<lambda>f. length f \<le> 700)
                 (if 700 < length q then paragraph_chunks up q else [q])"
      by simp
  qed
  then have bound: "list_all (\<lambda>f. length f \<le> 700) (fragments up c)"
    unfolding fr by (auto simp: list_all_iff)
  have closed: "350 < length (join_sp g @ [32] @ hd g') \<or> keyword_start up (hd g')"
    if "?G = G1 @ g # g' # G2" for G1 g g' G2
    using groups_of_closed [OF that] by simp
  have "paragraph_chunks up p = map join_sp ?G \<and> concat ?G = sentences_of p \<and>
        list_all (\<lambda>g. g \<noteq> [] \<and> (length (join_sp g) \<le> 350 \<or> length g = 1) \<and>
                       list_all (\<lambda>s. \<not> keyword_start up s) (tl g)) ?G"
    using chunk_groups_ok [of up "sentences_of p"]
    by (simp add: paragraph_chunks_groups groups_of_concat)
  with closed
  have chunks: "\<exists>G. paragraph_chunks up p = map join_sp G \<and> concat G = sentences_of p \<and>
        list_all (\<lambda>g. g \<noteq> [] \<and> (length (join_sp g) \<le> 350 \<or> length g = 1) \<and>
                       list_all (\<lambda>s. \<not> keyword_start up s) (tl g)) G \<and>
        (\<forall>G1 g g' G2. G = G1 @ g # g' # G2 \<longrightarrow>
             350 < length (join_sp g @ [32] @ hd g') \<or> keyword_start up (hd g'))"
    by blast
  from bound fr chunks show ?thesis
    using assemble_fragments [of up c] by blast
qed

subsection \<open>A long paragraph of short sentences\<close>

lemma length_sentence_line: "length (sentence_line b n) = Suc n * (length b + 1) + n"
  by (induction n) auto

lemma sentence_line_ends:
  "b \<noteq> [] \<Longrightarrow> sentence_line b n \<noteq> [] \<and> hd (sentence_line b n) = hd b \<and>
     last (sentence_line b n) = 46"
  by (induction n) auto

lemma has_break_plain:
  "list_all (\<lambda>c. c \<noteq> 10 \<and> c \<noteq> 46) b \<Longrightarrow> s \<noteq> [] \<Longrightarrow> has_break (b @ s) = has_break s"
proof (induction b)
  case Nil
  then show ?case by simp
next
  case (Cons c b)
  then have "has_break (c # b @ s) = has_break (b @ s)"
    by (simp only: has_break_Cons) auto
  with Cons show ?case by simp
qed

lemma sentence_line_no_break:
  assumes "plain_letters b"
  shows "\<not> has_break (sentence_line b n @ [10])"
proof (induction n)
  case 0
  have p: "list_all (\<lambda>c. c \<noteq> 10 \<and> c \<noteq> 46) b"
    by (rule plain_letters_all [OF assms]) simp
  have "has_break (b @ [46, 10]) = has_break [46, 10]"
    by (rule has_break_plain [OF p]) simp
  then show ?case by simp
next
  case (Suc n)
  have p: "list_all (\<lambda>c. c \<noteq> 10 \<and> c \<noteq> 46) b"
    by (rule plain_letters_all [OF assms]) simp
  have "has_break (b @ 46 # 32 # sentence_line b n @ [10]) =
        has_break (46 # 32 # sentence_line b n @ [10])"
    by (rule has_break_plain [OF p]) simp
  also have "\<dots> = has_break (sentence_line b n @ [10])"
    by (cases "sentence_line b n @ [10]") auto
  finally show ?case using Suc by simp
qed

lemma split_breaks_two:
  assumes "\<not> has_break (a @ [10])" and "a \<noteq> []" and "\<not> has_break q" and "q \<noteq> []"
    and "hd q \<noteq> 10"
  shows "split_breaks (a @ 10 # 10 # q) = [a, q]"
  using assms(1,2)
proof (induction a)
  case Nil
  then show ?case by simp
next
  case (Cons c a)
  from assms(4,5) have dq: "dropWhile (\<lambda>d. d = 10) q = q"
    by (cases q) auto
  have sq: "split_breaks q = [q]"
    using assms(3) by (rule split_breaks_no_break)
  let ?s = "a @ 10 # 10 # q"
  from Cons.prems(1) have nb: "\<not> has_break (a @ [10])"
    and n1: "\<not> (c = 10 \<and> 2 \<le> length (takeWhile (\<lambda>d. d = 10) (c # a @ [10])))"
    and n2: "\<not> (c = 46 \<and> 3 \<le> length (takeWhile (\<lambda>d. d = 46) (c # a @ [10])))"
    by (simp_all only: has_break_Cons append_Cons) blast+
  have m1: "\<not> (c = 10 \<and> 2 \<le> length (takeWhile (\<lambda>d. d = 10) (c # ?s)))"
    using n1 by (cases a) (auto simp: run_length_two)
  have m2: "\<not> (c = 46 \<and> 3 \<le> length (takeWhile (\<lambda>d. d = 46) (c # ?s)))"
  proof (cases a)
    case Nil
    then show ?thesis by (simp add: run_length_three)
  next
    case (Cons d a')
    with n2 show ?thesis
      by (cases a') (auto simp: run_length_three)
  qed
  have rest: "split_breaks ?s = a # [q]"
  proof (cases "a = []")
    case True
    then show ?thesis using dq sq by (simp del: split_breaks.simps(2)) (simp add: dq sq)
  next
    case False
    with Cons.IH nb show ?thesis by simp
  qed
  have "split_breaks (c # ?s) = (c # a) # [q]"
    using m1 m2 rest by (simp del: takeWhile.simps)
  then show ?case by simp
qed

lemma split_sentences_line:
  assumes "plain_letters b"
  shows "split_sentences (sentence_line b n) = replicate n b @ [b @ [46]]"
proof (induction n)
  case 0
  have "list_all (\<lambda>c. c \<noteq> 46) b"
    by (rule plain_letters_all [OF assms]) simp
  then have "no_dot_space (b @ [46])"
    by (simp add: no_dot_space_plain no_dot_space_snoc is_space_def)
  then show ?case by (simp add: split_sentences_no_break del: split_sentences.simps)
next
  case (Suc n)
  have "list_all (\<lambda>c. c \<noteq> 46) b"
    by (rule plain_letters_all [OF assms]) simp
  then have nd: "no_dot_space (b @ [46])"
    by (simp add: no_dot_space_plain no_dot_space_snoc is_space_def)
  have "\<not> is_space (hd (sentence_line b n))"
    using sentence_line_ends [of b n] plain_letters_hd [OF assms] by (simp add: is_space_def)
  then have "split_sentences (b @ 46 # 32 # sentence_line b n) =
             b # split_sentences (sentence_line b n)"
    using nd by (intro split_sentences_full_stop) simp_all
  with Suc show ?case by (simp add: replicate_app_Cons_same del: split_sentences.simps)
qed

lemma trim_sentence_line:
  assumes "plain_letters b"
  shows "trim (sentence_line b n) = sentence_line b n"
proof (rule trim_unchanged)
  show "sentence_line b n \<noteq> []"
    using sentence_line_ends [of b n] plain_letters_hd [OF assms] by simp
  show "\<not> is_space (hd (sentence_line b n))"
    using sentence_line_ends [of b n] plain_letters_hd [OF assms] by (simp add: is_space_def)
  show "\<not> is_space (last (sentence_line b n))"
    using sentence_line_ends [of b n] plain_letters_hd [OF assms] by (simp add: is_space_def)
qed

lemma prepare_sentences_line:
  assumes "trim b = b" and "b \<noteq> []" and "trim (b @ [46]) = b @ [46]"
  shows "prepare_sentences (replicate n b @ [b @ [46]]) = replicate (Suc n) (b @ [46])"
  using assms by (induction n) simp_all

lemma sentences_of_line:
  assumes "plain_letters b"
  shows "sentences_of (sentence_line b n) = replicate (Suc n) (b @ [46])"
proof -
  from plain_letters_hd [OF assms] have ne: "b \<noteq> []" and h: "\<not> is_space (hd b)"
    by (simp_all add: is_space_def)
  have "list_all (\<lambda>c. \<not> is_space c) b"
    by (rule plain_letters_all [OF assms]) (simp add: is_space_def)
  with ne have l: "\<not> is_space (last b)"
    by (simp add: list_all_iff)
  have t1: "trim b = b"
    using ne h l by (rule trim_unchanged)
  have t2: "trim (b @ [46]) = b @ [46]"
    using ne h by (intro trim_unchanged) (simp_all add: is_space_def)
  show ?thesis
    unfolding sentences_of_def split_sentences_line [OF assms]
    using t1 ne t2 by (rule prepare_sentences_line)
qed

lemma join_sp_line: "join_sp (replicate (Suc n) (b @ [46])) = sentence_line b n"
  by (induction n) simp_all

lemma chunks_of_equal_sentences:
  assumes "length s = 21" and "\<not> keyword_start up s"
  shows "groups_of (\<lambda>g x. 350 < length (join_sp g @ [32] @ x) \<or> keyword_start up x)
           (\<lambda>g. False) (replicate 32 s) =
         [replicate 15 s, replicate 15 s, replicate 2 s]"
proof -
  have e: "replicate 32 s = [s, s, s, s, s, s, s, s, s, s, s, s, s, s, s, s,
                             s, s, s, s, s, s, s, s, s, s, s, s, s, s, s, s]"
    "replicate 15 s = [s, s, s, s, s, s, s, s, s, s, s, s, s, s, s]"
    "replicate 2 s = [s, s]"
    by (simp_all add: eval_nat_numeral)
  show ?thesis
    unfolding e by (simp add: groups_of_def assms)
qed

lemma c5_witness_letters: "plain_letters (js ''abcdefghijklmnopqrst'')"
  by (simp add: plain_letters_def js_def)

lemma c5_witness_length: "length (sentence_line (js ''abcdefghijklmnopqrst'') 31) = 703"
  by (simp add: length_sentence_line) (simp add: js_def)

lemma c5_witness_short:
  "trim (js ''Wind later in the day.'') = js ''Wind later in the day.''"
  "split_sentences (js ''Wind later in the day.'') = [js ''Wind later in the day.'']"
  "length (js ''Wind later in the day.'') = 22"
  "\<not> has_break (js ''Wind later in the day.'')"
  by (simp_all add: eval_simps del: eval_del)

lemma c5_witness_final:
  "final_paragraphs up (sentence_line (js ''abcdefghijklmnopqrst'') 31 @ 10 # 10 #
      js ''Wind later in the day.'') =
   [sentence_line (js ''abcdefghijklmnopqrst'') 31, js ''Wind later in the day.'']"
proof -
  let ?L = "sentence_line (js ''abcdefghijklmnopqrst'') 31"
  let ?W = "js ''Wind later in the day.''"
  have ne: "?L \<noteq> []"
    using c5_witness_length by auto
  have w: "?W \<noteq> []" "hd ?W \<noteq> 10"
    by (simp_all add: js_def)
  have sb: "split_breaks (?L @ 10 # 10 # ?W) = [?L, ?W]"
    using sentence_line_no_break [OF c5_witness_letters] ne c5_witness_short(4) w
    by (rule split_breaks_two)
  have "segment up (?L @ 10 # 10 # ?W) = [?L, ?W]"
    unfolding segment_def sb
    by (simp add: trim_sentence_line [OF c5_witness_letters] c5_witness_short c5_witness_length)
  then show ?thesis
    by (simp add: final_paragraphs_def)
qed

lemma c5_witness_no_keyword:
  "\<not> keyword_start toUpperCase_ascii (js ''abcdefghijklmnopqrst'' @ [46])"
  by (simp add: keyword_start_def newSectionKeywords_def startsWith_def toUpperCase_ascii_def
      js_def canon_def)

lemma c5_witness_chunks:
  "paragraph_chunks toUpperCase_ascii (sentence_line (js ''abcdefghijklmnopqrst'') 31) =
   [sentence_line (js ''abcdefghijklmnopqrst'') 14, sentence_line (js ''abcdefghijklmnopqrst'') 14,
    sentence_line (js ''abcdefghijklmnopqrst'') 1]"
proof -
  have l: "length (js ''abcdefghijklmnopqrst'' @ [46]) = 21"
    by (simp add: js_def)
  have n: "replicate (Suc 31) x = replicate 32 x" "replicate 15 x = replicate (Suc 14) x"
    "replicate 2 x = replicate (Suc 1) x" for x :: jsstring
    by (simp_all add: numeral_2_eq_2)
  show ?thesis
    unfolding paragraph_chunks_groups sentences_of_line [OF c5_witness_letters] n(1)
      chunks_of_equal_sentences [OF l c5_witness_no_keyword]
    unfolding n(2,3) list.map join_sp_line ..
qed

theorem long_paragraphs_chunked_witness:
  "final_paragraphs toUpperCase_ascii
     (sentence_line (js ''abcdefghijklmnopqrst'') 31 @ 10 # 10 # js ''Wind later in the day.'') =
     [sentence_line (js ''abcdefghijklmnopqrst'') 31, js ''Wind later in the day.''] \<and>
   length (sentence_line (js ''abcdefghijklmnopqrst'') 31) = 703 \<and>
   fragments toUpperCase_ascii
     (sentence_line (js ''abcdefghijklmnopqrst'') 31 @ 10 # 10 # js ''Wind later in the day.'') =
     [sentence_line (js ''abcdefghijklmnopqrst'') 14, sentence_line (js ''abcdefghijklmnopqrst'') 14,
      sentence_line (js ''abcdefghijklmnopqrst'') 1, js ''Wind later in the day.''] \<and>
   list_all (\<lambda>f. length f \<le> 700)
     (fragments toUpperCase_ascii
        (sentence_line (js ''abcdefghijklmnopqrst'') 31 @ 10 # 10 # js ''Wind later in the day.''))"
proof -
  let ?L = "sentence_line (js ''abcdefghijklmnopqrst'') 31"
  let ?W = "js ''Wind later in the day.''"
  let ?c = "?L @ 10 # 10 # ?W"
  note fp = c5_witness_final [of toUpperCase_ascii]
  have h1: "segment toUpperCase_ascii ?c \<noteq> []"
  proof
    assume "segment toUpperCase_ascii ?c = []"
    then have "final_paragraphs toUpperCase_ascii ?c = []"
      by (simp add: final_paragraphs_def)
    with fp show False by simp
  qed
  have "list_all (\<lambda>q. length q < 700) (split_sentences ?L)"
    unfolding split_sentences_line [OF c5_witness_letters]
    by (simp add: list_all_iff) (simp add: js_def)
  moreover have "list_all (\<lambda>q. length q < 700) (split_sentences ?W)"
    by (simp add: c5_witness_short del: split_sentences.simps)
  ultimately have h2: "list_all (\<lambda>p. list_all (\<lambda>q. length q < 700) (split_sentences p))
              (final_paragraphs toUpperCase_ascii ?c)"
    unfolding fp by simp
  from long_paragraphs_chunked [OF h1 h2]
  have b: "list_all (\<lambda>f. length f \<le> 700) (fragments toUpperCase_ascii ?c)"
    and f: "fragments toUpperCase_ascii ?c =
           concat (map (\<lambda>p. if 700 < length p then paragraph_chunks toUpperCase_ascii p else [p])
                     (final_paragraphs toUpperCase_ascii ?c))"
    by blast+
  have "fragments toUpperCase_ascii ?c =
          [sentence_line (js ''abcdefghijklmnopqrst'') 14,
           sentence_line (js ''abcdefghijklmnopqrst'') 14,
           sentence_line (js ''abcdefghijklmnopqrst'') 1, ?W]"
    unfolding f fp
    by (simp add: c5_witness_length c5_witness_short c5_witness_chunks)
  with fp c5_witness_length b show ?thesis by simp
qed

subsection \<open>Highlighting adds tags only\<close>

lemma strip_tags_text:
  "60 \<notin> set t \<Longrightarrow> strip_tags_from False (t @ r) = t @ strip_tags_from False r"
  by (induction t) auto

lemma strip_tags_inside:
  "62 \<notin> set body \<Longrightarrow> strip_tags_from True (body @ 62 # r) = strip_tags_from False r"
  by (induction body) auto

lemma strip_tags_tag: "is_tag v \<Longrightarrow> strip_tags_from False (v @ r) = strip_tags_from False r"
  by (auto simp: is_tag_def strip_tags_inside)

lemma is_tag_not_Nil: "is_tag v \<Longrightarrow> v \<noteq> []"
  by (auto simp: is_tag_def)

lemma is_tag_hd: "is_tag v \<Longrightarrow> \<exists>w. v = 60 # w"
  by (auto simp: is_tag_def)

lemma wf_markup_mono: "wf_markup V s \<Longrightarrow> set V \<subseteq> set V' \<Longrightarrow> wf_markup V' s"
  by (induction rule: wf_markup.induct) (auto intro: wf_markup.intros)

lemma wf_markup_text: "60 \<notin> set t \<Longrightarrow> wf_markup V r \<Longrightarrow> wf_markup V (t @ r)"
  by (induction t) (auto intro: wf_markup.intros)

lemma wf_markup_append: "wf_markup V a \<Longrightarrow> wf_markup V b \<Longrightarrow> wf_markup V (a @ b)"
  by (induction rule: wf_markup.induct) (auto intro: wf_markup.intros)

lemma wf_markup_drop:
  assumes "list_all is_tag V"
  shows "wf_markup V s \<Longrightarrow> n \<le> length s \<Longrightarrow> 60 \<notin> set (take n s) \<Longrightarrow> wf_markup V (drop n s)"
proof (induction arbitrary: n rule: wf_markup.induct)
  case wf_empty
  then show ?case by (simp add: wf_markup.intros)
next
  case (wf_char c s)
  then show ?case by (cases n) (auto intro: wf_markup.intros)
next
  case (wf_tag v s)
  from wf_tag.hyps(1) assms obtain w where v: "v = 60 # w"
    using is_tag_hd by (auto simp: list_all_iff)
  show ?case
  proof (cases n)
    case 0
    with wf_tag show ?thesis by (auto intro: wf_markup.intros)
  next
    case (Suc k)
    with wf_tag.prems v show ?thesis by simp
  qed
qed

lemma highlight_pass_markup:
  assumes m: "local_matcher m" and V: "list_all is_tag V" and i: "list_all (inert m) V"
    and o: "is_tag opening" and c: "is_tag closing"
  shows "wf_markup V s \<Longrightarrow>
         strip_tags_from False (highlight_pass m opening closing prev s) = strip_tags_from False s \<and>
         wf_markup (opening # closing # V) (highlight_pass m opening closing prev s)"
proof (induction "length s" arbitrary: s prev rule: less_induct)
  case less
  let ?V = "opening # closing # V"
  from less.prems show ?case
  proof (cases rule: wf_markup.cases)
    case wf_empty
    then show ?thesis by (simp add: wf_markup.intros)
  next
    case (wf_char x s')
    show ?thesis
    proof (cases "\<exists>n. m prev s = Some (Suc n)")
      case True
      then obtain n where mn: "m prev s = Some (Suc n)" by blast
      with m have b: "Suc n \<le> length s" "60 \<notin> set (take (Suc n) s)"
        by (auto simp: local_matcher_def)
      have wr: "wf_markup V (drop (Suc n) s)"
        using wf_markup_drop [OF V less.prems b] .
      have "length (drop (Suc n) s) < length s"
        using b(1) by simp
      from less.hyps [OF this wr]
      have ih: "strip_tags_from False
                  (highlight_pass m opening closing (Some (last (take (Suc n) s))) (drop (Suc n) s)) =
                strip_tags_from False (drop (Suc n) s)"
        "wf_markup ?V
           (highlight_pass m opening closing (Some (last (take (Suc n) s))) (drop (Suc n) s))"
        by simp_all
      have hp: "highlight_pass m opening closing prev s =
        opening @ take (Suc n) s @ closing @
        highlight_pass m opening closing (Some (last (take (Suc n) s))) (drop (Suc n) s)"
        using mn wf_char(1) by simp
      have "strip_tags_from False (highlight_pass m opening closing prev s) =
            take (Suc n) s @ strip_tags_from False (drop (Suc n) s)"
        unfolding hp using ih(1)
        by (simp only: strip_tags_tag [OF o] strip_tags_tag [OF c] strip_tags_text [OF b(2)])
      also have "\<dots> = strip_tags_from False (take (Suc n) s @ drop (Suc n) s)"
        by (simp only: strip_tags_text [OF b(2)])
      finally have s1: "strip_tags_from False (highlight_pass m opening closing prev s) =
                        strip_tags_from False s"
        by simp
      have oin: "opening \<in> set ?V" and cin: "closing \<in> set ?V" by simp_all
      have "wf_markup ?V (closing @
              highlight_pass m opening closing (Some (last (take (Suc n) s))) (drop (Suc n) s))"
        by (rule wf_markup.wf_tag [OF cin ih(2)])
      then have "wf_markup ?V (take (Suc n) s @ closing @
              highlight_pass m opening closing (Some (last (take (Suc n) s))) (drop (Suc n) s))"
        by (rule wf_markup_text [OF b(2)])
      then have "wf_markup ?V (highlight_pass m opening closing prev s)"
        unfolding hp by (rule wf_markup.wf_tag [OF oin])
      with s1 show ?thesis by simp
    next
      case False
      then have hp: "highlight_pass m opening closing prev s =
                     x # highlight_pass m opening closing (Some x) s'"
        using wf_char(1) by (auto split: option.splits nat.splits)
      have "length s' < length s" using wf_char(1) by simp
      from less.hyps [OF this wf_char(3), of "Some x"] wf_char(1,2) show ?thesis
        unfolding hp by (auto intro: wf_markup.intros)
    qed
  next
    case (wf_tag v s')
    with V i have tv: "is_tag v" and iv: "inert m v"
      by (simp_all add: list_all_iff)
    have hp: "highlight_pass m opening closing prev s =
              v @ highlight_pass m opening closing (Some 62) s'"
      using iv wf_tag(1) by (simp add: inert_def)
    have "length s' < length s"
      using wf_tag(1) is_tag_not_Nil [OF tv] by simp
    from less.hyps [OF this wf_tag(3), of "Some 62"] have
      ih: "strip_tags_from False (highlight_pass m opening closing (Some 62) s') =
           strip_tags_from False s'"
        "wf_markup ?V (highlight_pass m opening closing (Some 62) s')"
      by simp_all
    have vin: "v \<in> set ?V" using wf_tag(2) by simp
    have "wf_markup ?V (highlight_pass m opening closing prev s)"
      unfolding hp by (rule wf_markup.wf_tag [OF vin ih(2)])
    with ih(1) wf_tag(1) show ?thesis
      unfolding hp by (simp add: strip_tags_tag [OF tv])
  qed
qed


subsection \<open>The patterns of the source are local and leave the tags alone\<close>

lemma canon_lt_sign: "canon c = 60 \<longleftrightarrow> c = 60"
  by (auto simp: canon_def)

lemma ci_prefix_local:
  "ci_prefix a s \<Longrightarrow> 60 \<notin> set a \<Longrightarrow> length a \<le> length s \<and> 60 \<notin> set (take (length a) s)"
proof (induction a s rule: ci_prefix.induct)
  case (1 s)
  then show ?case by simp
next
  case (2 p ps)
  then show ?case by simp
next
  case (3 p ps c cs)
  then have "canon c = canon p" "p \<noteq> 60" by auto
  then have "c \<noteq> 60" using canon_lt_sign by metis
  with 3 show ?case by auto
qed

lemma first_alternative_local:
  "first_alternative alts s = Some n \<Longrightarrow> list_all (\<lambda>a. 60 \<notin> set a) alts \<Longrightarrow>
   0 < n \<and> n \<le> length s \<and> 60 \<notin> set (take n s)"
proof (induction alts)
  case Nil
  then show ?case by simp
next
  case (Cons a as)
  show ?case
  proof (cases "a \<noteq> [] \<and> ci_prefix a s \<and>
      word_boundary (Some (last (take (length a) s))) (first_unit (drop (length a) s))")
    case True
    with Cons.prems have n: "n = length a" and a: "60 \<notin> set a" by simp_all
    from True a have "length a \<le> length s \<and> 60 \<notin> set (take (length a) s)"
      by (intro ci_prefix_local) simp_all
    with True n show ?thesis by simp
  next
    case False
    with Cons show ?thesis by auto
  qed
qed

lemma match_words_local:
  "list_all (\<lambda>a. 60 \<notin> set a) alts \<Longrightarrow> local_matcher (match_words alts)"
  unfolding local_matcher_def match_words_def
  by (auto split: if_splits dest: first_alternative_local)

lemma match_measurement_local:
  assumes "list_all (\<lambda>a. 60 \<notin> set a) units"
  shows "local_matcher (match_measurement units)"
  unfolding local_matcher_def
proof (intro allI impI)
  fix prev s n
  assume a: "match_measurement units prev s = Some n"
  let ?ds = "takeWhile is_digit s"
  let ?ws = "takeWhile is_space (dropWhile is_digit s)"
  let ?r = "dropWhile is_space (dropWhile is_digit s)"
  from a obtain k where k: "first_alternative units ?r = Some k"
    and n: "n = length ?ds + length ?ws + k"
    by (auto simp: match_measurement_def Let_def split: if_splits option.splits)
  from first_alternative_local [OF k assms]
  have kk: "0 < k" "k \<le> length ?r" "60 \<notin> set (take k ?r)" by simp_all
  have s: "s = ?ds @ ?ws @ ?r"
    by (metis takeWhile_dropWhile_id)
  have d: "60 \<notin> set ?ds"
  proof
    assume "60 \<in> set ?ds"
    then have "is_digit 60" by (auto dest: set_takeWhileD)
    then show False by (simp add: is_digit_def)
  qed
  have w: "60 \<notin> set ?ws"
  proof
    assume "60 \<in> set ?ws"
    then have "is_space 60" by (auto dest: set_takeWhileD)
    then show False by (simp add: is_space_def)
  qed
  have len: "length s = length ?ds + length ?ws + length ?r"
    by (metis length_append s add.assoc)
  have gen: "\<And>a b c :: jsstring. take (length a + length b + k) (a @ b @ c) = a @ b @ take k c"
    by simp
  have "take n (?ds @ ?ws @ ?r) = ?ds @ ?ws @ take k ?r"
    unfolding n by (rule gen)
  then have "take n s = ?ds @ ?ws @ take k ?r"
    by (simp only: s [symmetric])
  then have "set (take n s) = set ?ds \<union> set ?ws \<union> set (take k ?r)"
    by (simp only: set_append Un_assoc)
  with d w kk n len show "0 < n \<and> n \<le> length s \<and> 60 \<notin> set (take n s)"
    by simp
qed


lemma match_measurement_no_digit:
  "\<not> is_digit c \<Longrightarrow> match_measurement units prev (c # s) = None"
  by (simp add: match_measurement_def)

lemma highlight_pass_no_digits:
  "list_all (\<lambda>c. \<not> is_digit c) v \<Longrightarrow>
   highlight_pass (match_measurement units) opening closing prev (v @ r) =
   v @ highlight_pass (match_measurement units) opening closing
         (if v = [] then prev else Some (last v)) r"
  by (induction v arbitrary: prev) (auto simp: match_measurement_no_digit)

lemma inert_measurement:
  "list_all (\<lambda>c. \<not> is_digit c) v \<Longrightarrow> v \<noteq> [] \<Longrightarrow> last v = 62 \<Longrightarrow>
   inert (match_measurement units) v"
  by (simp add: inert_def highlight_pass_no_digits)

lemmas tag_defs = paragraph_tags_def strong_tags_def em_tags_def direction_tags_def
  measurement_tags_def strong_open_def strong_close_def em_open_def em_close_def
  span_close_def wind_direction_open_def weather_measurement_open_def

lemma is_tagI: "v = 60 # body @ [62] \<Longrightarrow> 60 \<notin> set body \<Longrightarrow> 62 \<notin> set body \<Longrightarrow> is_tag v"
  by (auto simp: is_tag_def)

lemma measurement_tags_are_tags: "list_all is_tag measurement_tags"
proof -
  have "is_tag (js ''<p>'')" by (rule is_tagI [of _ "js ''p''"]) (simp_all add: js_def)
  moreover have "is_tag (js ''</p>'')" by (rule is_tagI [of _ "js ''/p''"]) (simp_all add: js_def)
  moreover have "is_tag (js ''<br>'')" by (rule is_tagI [of _ "js ''br''"]) (simp_all add: js_def)
  moreover have "is_tag strong_open"
    by (rule is_tagI [of _ "js ''strong''"]) (simp_all add: js_def strong_open_def)
  moreover have "is_tag strong_close"
    by (rule is_tagI [of _ "js ''/strong''"]) (simp_all add: js_def strong_close_def)
  moreover have "is_tag em_open"
    by (rule is_tagI [of _ "js ''em''"]) (simp_all add: js_def em_open_def)
  moreover have "is_tag em_close"
    by (rule is_tagI [of _ "js ''/em''"]) (simp_all add: js_def em_close_def)
  moreover have "is_tag span_close"
    by (rule is_tagI [of _ "js ''/span''"]) (simp_all add: js_def span_close_def)
  moreover have \<open>is_tag wind_direction_open\<close>
    by (rule is_tagI [of _ \<open>js ''span class="wind-direction"''\<close>])
       (simp_all add: js_def wind_direction_open_def)
  moreover have \<open>is_tag weather_measurement_open\<close>
    by (rule is_tagI [of _ \<open>js ''span class="weather-measurement"''\<close>])
       (simp_all add: js_def weather_measurement_open_def)
  ultimately show ?thesis
    by (simp add: measurement_tags_def direction_tags_def em_tags_def strong_tags_def
        paragraph_tags_def)
qed

lemma inert_time_period: "list_all (inert (match_words time_period_words)) paragraph_tags"
  by (simp add: inert_def match_words_def time_period_words_def tag_defs eval_simps
      del: eval_del)

lemma inert_weather_system: "list_all (inert (match_words weather_system_words)) strong_tags"
  by (simp add: inert_def match_words_def weather_system_words_def tag_defs eval_simps
      del: eval_del)

lemma inert_weather_condition:
  "list_all (inert (match_words weather_condition_words)) strong_tags"
  by (simp add: inert_def match_words_def weather_condition_words_def tag_defs eval_simps
      del: eval_del)

lemma inert_marine_condition: "list_all (inert (match_words marine_condition_words)) em_tags"
  by (simp add: inert_def match_words_def marine_condition_words_def tag_defs eval_simps
      del: eval_del)

lemma inert_wind_direction: "list_all (inert (match_words wind_direction_words)) em_tags"
  by (simp add: inert_def match_words_def wind_direction_words_def tag_defs eval_simps
      del: eval_del)

lemma measurement_tags_no_digits:
  "list_all (\<lambda>v. list_all (\<lambda>c. \<not> is_digit c) v \<and> v \<noteq> [] \<and> last v = 62) measurement_tags"
  by (simp add: tag_defs js_def is_digit_def)

lemma inert_units: "list_all (inert (match_measurement units)) measurement_tags"
  using measurement_tags_no_digits
  by (simp add: list_all_iff inert_measurement)

lemma alternatives_without_lt:
  "list_all (\<lambda>a. 60 \<notin> set a) time_period_words"
  "list_all (\<lambda>a. 60 \<notin> set a) weather_system_words"
  "list_all (\<lambda>a. 60 \<notin> set a) weather_condition_words"
  "list_all (\<lambda>a. 60 \<notin> set a) marine_condition_words"
  "list_all (\<lambda>a. 60 \<notin> set a) wind_direction_words"
  "list_all (\<lambda>a. 60 \<notin> set a) measurement_units"
  "list_all (\<lambda>a. 60 \<notin> set a) temperature_units"
  by (simp_all add: time_period_words_def weather_system_words_def weather_condition_words_def
      marine_condition_words_def wind_direction_words_def measurement_units_def
      temperature_units_def js_def)


lemma highlight_strip_tags:
  assumes "wf_markup paragraph_tags F"
  shows "strip_tags (highlight F) = strip_tags F"
proof -
  note tags = measurement_tags_are_tags
  have t0: "list_all is_tag paragraph_tags" and t1: "list_all is_tag strong_tags"
    and t3: "list_all is_tag em_tags" and t5: "list_all is_tag direction_tags"
    using tags
    by (simp_all add: measurement_tags_def direction_tags_def em_tags_def strong_tags_def)
  have so: "is_tag strong_open" and sc: "is_tag strong_close" and eo: "is_tag em_open"
    and ec: "is_tag em_close" and wo: "is_tag wind_direction_open" and pc: "is_tag span_close"
    and mo: "is_tag weather_measurement_open"
    using tags
    by (simp_all add: measurement_tags_def direction_tags_def em_tags_def strong_tags_def)
  have i6: "list_all (inert (match_measurement measurement_units)) direction_tags"
    using inert_units [of measurement_units] by (simp add: measurement_tags_def)
  let ?F1 = "highlight_pass (match_words time_period_words) strong_open strong_close None F"
  let ?F2 = "highlight_pass (match_words weather_system_words) strong_open strong_close None ?F1"
  let ?F3 = "highlight_pass (match_words weather_condition_words) em_open em_close None ?F2"
  let ?F4 = "highlight_pass (match_words marine_condition_words) em_open em_close None ?F3"
  let ?F5 = "highlight_pass (match_words wind_direction_words) wind_direction_open span_close
               None ?F4"
  let ?F6 = "highlight_pass (match_measurement measurement_units) weather_measurement_open
               span_close None ?F5"
  let ?F7 = "highlight_pass (match_measurement temperature_units) weather_measurement_open
               span_close None ?F6"
  have s1: "strip_tags_from False ?F1 = strip_tags_from False F" and w1: "wf_markup strong_tags ?F1"
    using highlight_pass_markup
      [OF match_words_local [OF alternatives_without_lt(1)] t0 inert_time_period so sc assms]
    by (simp_all add: strong_tags_def)
  have r2: "strip_tags_from False ?F2 = strip_tags_from False ?F1 \<and>
            wf_markup (strong_open # strong_close # strong_tags) ?F2"
    by (rule highlight_pass_markup
        [OF match_words_local [OF alternatives_without_lt(2)] t1 inert_weather_system so sc w1])
  then have s2: "strip_tags_from False ?F2 = strip_tags_from False ?F1" by simp
  from r2 have w2: "wf_markup strong_tags ?F2"
    by (auto intro: wf_markup_mono simp: strong_tags_def)
  have r3: "strip_tags_from False ?F3 = strip_tags_from False ?F2 \<and>
            wf_markup (em_open # em_close # strong_tags) ?F3"
    by (rule highlight_pass_markup
        [OF match_words_local [OF alternatives_without_lt(3)] t1 inert_weather_condition eo ec w2])
  then have s3: "strip_tags_from False ?F3 = strip_tags_from False ?F2"
    and w3: "wf_markup em_tags ?F3"
    by (simp_all add: em_tags_def)
  have r4: "strip_tags_from False ?F4 = strip_tags_from False ?F3 \<and>
            wf_markup (em_open # em_close # em_tags) ?F4"
    by (rule highlight_pass_markup
        [OF match_words_local [OF alternatives_without_lt(4)] t3 inert_marine_condition eo ec w3])
  then have s4: "strip_tags_from False ?F4 = strip_tags_from False ?F3" by simp
  from r4 have w4: "wf_markup em_tags ?F4"
    by (auto intro: wf_markup_mono simp: em_tags_def)
  have r5: "strip_tags_from False ?F5 = strip_tags_from False ?F4 \<and>
            wf_markup (wind_direction_open # span_close # em_tags) ?F5"
    by (rule highlight_pass_markup
        [OF match_words_local [OF alternatives_without_lt(5)] t3 inert_wind_direction wo pc w4])
  then have s5: "strip_tags_from False ?F5 = strip_tags_from False ?F4"
    and w5: "wf_markup direction_tags ?F5"
    by (simp_all add: direction_tags_def)
  have r6: "strip_tags_from False ?F6 = strip_tags_from False ?F5 \<and>
            wf_markup (weather_measurement_open # span_close # direction_tags) ?F6"
    by (rule highlight_pass_markup
        [OF match_measurement_local [OF alternatives_without_lt(6)] t5 i6 mo pc w5])
  then have s6: "strip_tags_from False ?F6 = strip_tags_from False ?F5"
    and w6: "wf_markup measurement_tags ?F6"
    by (simp_all add: measurement_tags_def)
  have r7: "strip_tags_from False ?F7 = strip_tags_from False ?F6 \<and>
            wf_markup (weather_measurement_open # span_close # measurement_tags) ?F7"
    by (rule highlight_pass_markup
        [OF match_measurement_local [OF alternatives_without_lt(7)] tags inert_units mo pc w6])
  then have s7: "strip_tags_from False ?F7 = strip_tags_from False ?F6" by simp
  have "highlight F = ?F7" by (simp add: highlight_def)
  with s1 s2 s3 s4 s5 s6 s7 show ?thesis
    by (simp add: strip_tags_def)
qed

subsection \<open>Characters that the formatter can emit\<close>

lemma list_all_trim: "list_all Q s \<Longrightarrow> list_all Q (trim s)"
proof -
  assume a: "list_all Q s"
  obtain u v where "s = u @ trim s @ v"
    using trim_decomp by blast
  with a show ?thesis by (metis list_all_append)
qed

lemma list_all_split_sentences:
  "list_all Q s \<Longrightarrow> list_all (list_all Q) (split_sentences s)"
proof (induction s rule: split_sentences.induct)
  case 1
  then show ?case by simp
next
  case (2 c cs)
  show ?case
  proof (cases "c = 46 \<and> takeWhile is_space cs \<noteq> []")
    case True
    from "2.prems" have "list_all Q (dropWhile is_space cs)"
      by (simp add: list_all_dropWhile)
    with True "2.IH"(1) show ?thesis
      by (simp del: takeWhile.simps dropWhile.simps)
  next
    case False
    obtain p ps where sp: "split_sentences cs = p # ps"
      by (cases "split_sentences cs") auto
    with False "2.IH"(2) "2.prems" show ?thesis
      by (auto simp del: takeWhile.simps dropWhile.simps)
  qed
qed

lemma list_all_split_breaks:
  "list_all Q s \<Longrightarrow> list_all (list_all Q) (split_breaks s)"
proof (induction s rule: split_breaks.induct)
  case 1
  then show ?case by simp
next
  case (2 c cs)
  let ?nl = "c = 10 \<and> 2 \<le> length (takeWhile (\<lambda>d. d = 10) (c # cs))"
  let ?dots = "c = 46 \<and> 3 \<le> length (takeWhile (\<lambda>d. d = 46) (c # cs))"
  from "2.prems" have d: "\<And>P. list_all Q (dropWhile P cs)"
    by (simp add: list_all_dropWhile)
  consider (nl) ?nl | (dots) "\<not> ?nl" ?dots | (none) "\<not> ?nl" "\<not> ?dots"
    by blast
  then show ?case
  proof cases
    case nl
    with "2.IH"(1) d show ?thesis by (auto simp del: takeWhile.simps dropWhile.simps)
  next
    case dots
    with "2.IH"(2) d show ?thesis by (auto simp del: takeWhile.simps dropWhile.simps)
  next
    case none
    obtain p ps where sp: "split_breaks cs = p # ps"
      by (cases "split_breaks cs") auto
    with none "2.IH"(3) "2.prems" show ?thesis
      by (auto simp del: takeWhile.simps dropWhile.simps)
  qed
qed

lemma list_all_prepare_sentences:
  "list_all (list_all Q) pieces \<Longrightarrow> Q 46 \<Longrightarrow> list_all (list_all Q) (prepare_sentences pieces)"
  by (induction pieces) (auto simp: list_all_trim)

lemma list_all_sentences_of:
  "list_all Q s \<Longrightarrow> Q 46 \<Longrightarrow> list_all (list_all Q) (sentences_of s)"
  by (simp add: sentences_of_def list_all_prepare_sentences list_all_split_sentences)

lemma list_all_join_sp:
  "list_all (list_all Q) g \<Longrightarrow> Q 32 \<Longrightarrow> list_all Q (join_sp g)"
  by (induction g rule: join_sp.induct) auto

lemma list_all_concat_iff: "list_all (list_all Q) G \<longleftrightarrow> list_all Q (concat G)"
  by (induction G) auto

lemma list_all_groups_joined:
  assumes "list_all Q s" and "Q 46" and "Q 32"
  shows "list_all (list_all Q) (map join_sp (groups_of pre post (sentences_of s)))"
proof -
  have "list_all (list_all Q) (sentences_of s)"
    using assms(1,2) by (rule list_all_sentences_of)
  then have "list_all (list_all (list_all Q)) (groups_of pre post (sentences_of s))"
    by (rule groups_of_elements)
  then show ?thesis
    using assms(3) list_all_join_sp [of Q] by (auto simp: list_all_iff)
qed

lemma list_all_segment:
  assumes "list_all Q c" and "Q 46" and "Q 32"
  shows "list_all (list_all Q) (segment up c)"
proof (cases "length (split_breaks c) = 1")
  case True
  then show ?thesis
    using list_all_groups_joined [OF assms]
    by (simp add: segment_def sentence_paragraphs_groups del: split_breaks.simps)
next
  case False
  have "list_all (list_all Q) (map trim (split_breaks c))"
    using list_all_split_breaks [OF assms(1)] list_all_trim [of Q]
    by (auto simp: list_all_iff)
  with False show ?thesis
    by (auto simp: segment_def list_all_iff simp del: split_breaks.simps)
qed

lemma list_all_final_paragraphs:
  assumes "list_all Q c" and "Q 46" and "Q 32"
  shows "list_all (list_all Q) (final_paragraphs up c)"
proof (cases "length (segment up c) = 1 \<and> 600 < length (hd (segment up c))")
  case True
  then have "list_all Q (hd (segment up c))"
    using list_all_segment [OF assms, of up] by (cases "segment up c") simp_all
  from list_all_groups_joined [OF this assms(2,3)] True show ?thesis
    by (simp add: final_paragraphs_def forceParagraphBreaks_groups)
next
  case False
  with list_all_segment [OF assms, of up] show ?thesis
    by (auto simp: final_paragraphs_def)
qed

lemma list_all_paragraph_chunks:
  "list_all Q p \<Longrightarrow> Q 46 \<Longrightarrow> Q 32 \<Longrightarrow> list_all (list_all Q) (paragraph_chunks up p)"
  by (simp add: paragraph_chunks_groups list_all_groups_joined)

lemma list_all_fragments:
  assumes "list_all Q c" and "Q 46" and "Q 32" and "segment up c \<noteq> []"
  shows "list_all (list_all Q) (fragments up c)"
proof -
  have "\<And>p. p \<in> set (final_paragraphs up c) \<Longrightarrow>
          list_all (list_all Q) (if 700 < length p then paragraph_chunks up p else [p])"
    using list_all_final_paragraphs [OF assms(1,2,3), of up]
      list_all_paragraph_chunks [OF _ assms(2,3), of _ up]
    by (auto simp: list_all_iff)
  then show ?thesis
    unfolding fragments_no_fallback [OF assms(4)]
    by (auto simp: list_all_iff split: if_splits)
qed

subsection \<open>The assembled markup\<close>

lemma paragraph_tag_members:
  "js ''<p>'' \<in> set paragraph_tags" "js ''</p>'' \<in> set paragraph_tags"
  "js ''<br>'' \<in> set paragraph_tags"
  by (simp_all add: paragraph_tags_def)

lemma wf_markup_p_element:
  "60 \<notin> set f \<Longrightarrow> wf_markup paragraph_tags r \<Longrightarrow> wf_markup paragraph_tags (p_element f @ r)"
proof -
  assume f: "60 \<notin> set f" and r: "wf_markup paragraph_tags r"
  have "wf_markup paragraph_tags (js ''</p>'' @ r)"
    by (rule wf_markup.wf_tag [OF paragraph_tag_members(2) r])
  then have "wf_markup paragraph_tags (f @ js ''</p>'' @ r)"
    by (rule wf_markup_text [OF f])
  then have "wf_markup paragraph_tags (js ''<p>'' @ f @ js ''</p>'' @ r)"
    by (rule wf_markup.wf_tag [OF paragraph_tag_members(1)])
  then show ?thesis by (simp add: p_element_def)
qed

lemma wf_markup_paragraphs:
  "list_all (\<lambda>f. 60 \<notin> set f) fs \<Longrightarrow> wf_markup paragraph_tags (concat (map p_element fs))"
  by (induction fs) (auto intro: wf_markup.intros wf_markup_p_element)

lemma strip_tags_p_element:
  "60 \<notin> set f \<Longrightarrow> strip_tags_from False (p_element f @ r) = f @ strip_tags_from False r"
proof -
  assume f: "60 \<notin> set f"
  have a: "strip_tags_from False (js ''<p>'' @ x) = strip_tags_from False x" for x
    by (simp add: js_def)
  have b: "strip_tags_from False (js ''</p>'' @ x) = strip_tags_from False x" for x
    by (simp add: js_def)
  show ?thesis
    unfolding p_element_def append_assoc a strip_tags_text [OF f] b ..
qed

lemma strip_tags_paragraphs:
  "list_all (\<lambda>f. 60 \<notin> set f) fs \<Longrightarrow> strip_tags (concat (map p_element fs)) = concat fs"
  unfolding strip_tags_def
  by (induction fs) (simp_all add: strip_tags_p_element)

subsection \<open>The cleaning adds spaces and newlines only\<close>

lemma list_all_skip_to_section_end: "list_all Q s \<Longrightarrow> list_all Q (skip_to_section_end s)"
  by (induction s) auto

lemma list_all_drop: "list_all Q s \<Longrightarrow> list_all Q (drop n s)"
  by (auto simp: list_all_iff dest: in_set_dropD)

lemma list_all_remove_usagov: "list_all Q s \<Longrightarrow> list_all Q (remove_usagov s)"
proof (induction s rule: remove_usagov.induct)
  case 1
  then show ?case by simp
next
  case (2 c cs)
  show ?case
  proof (cases "ci_prefix (js ''usa.gov'') (c # cs)")
    case True
    have "list_all Q (skip_to_section_end (drop 7 (c # cs)))"
      using "2.prems" by (intro list_all_skip_to_section_end list_all_drop)
    with True "2.IH"(1) show ?thesis by (simp del: drop.simps ci_prefix.simps)
  next
    case False
    with 2 show ?thesis by simp
  qed
qed

lemma list_all_bullet_line:
  assumes "bullet_line s = Some (m, rest)" and "list_all Q s"
  shows "list_all Q rest"
proof -
  from assms(1) obtain b r where br: "dropWhile is_space s = b # r"
    and rest: "rest = dropWhile (\<lambda>c. c \<noteq> 10) (dropWhile is_space r)"
    by (auto simp: bullet_line_def Let_def split: list.splits if_splits)
  from assms(2) have "list_all Q (dropWhile is_space s)" by (rule list_all_dropWhile)
  with br have "list_all Q r" by simp
  then show ?thesis unfolding rest by (intro list_all_dropWhile)
qed

lemma list_all_remove_bullet_lines:
  "list_all Q s \<Longrightarrow> list_all Q (remove_bullet_lines prev s)"
proof (induction prev s rule: remove_bullet_lines.induct)
  case (1 prev)
  then show ?case by simp
next
  case (2 prev c cs)
  show ?case
  proof (cases "at_line_start prev")
    case True
    show ?thesis
    proof (cases "bullet_line (c # cs)")
      case None
      with True 2 show ?thesis by simp
    next
      case (Some a)
      obtain m rest where a: "a = (m, rest)" by (cases a)
      from Some a "2.prems" have "list_all Q rest"
        by (auto intro: list_all_bullet_line)
      then have "list_all Q (remove_bullet_lines (Some (last m)) rest)"
        using "2.IH"(2) [OF True Some [unfolded a] refl] by simp
      with True Some a show ?thesis by simp
    qed
  next
    case False
    with 2 show ?thesis by simp
  qed
qed

lemma list_all_replace_inline_bullets:
  "list_all Q s \<Longrightarrow> Q 32 \<Longrightarrow> list_all Q (replace_inline_bullets s)"
proof (induction s rule: replace_inline_bullets.induct)
  case 1
  then show ?case by simp
next
  case (2 c cs)
  show ?case
  proof (cases "dropWhile is_space (c # cs)")
    case Nil
    with 2 show ?thesis by simp
  next
    case (Cons b r)
    from "2.prems"(1) have "list_all Q (dropWhile is_space (c # cs))"
      by (rule list_all_dropWhile)
    with Cons have "list_all Q r" by simp
    then have "list_all Q (dropWhile is_space r)" by (rule list_all_dropWhile)
    with Cons 2 show ?thesis by (simp del: dropWhile.simps)
  qed
qed

lemma list_all_collapse_blanks: "list_all Q s \<Longrightarrow> Q 32 \<Longrightarrow> list_all Q (collapse_blanks s)"
  by (induction s rule: collapse_blanks.induct) (auto simp: list_all_dropWhile)

lemma list_all_strip_line_indent: "list_all Q s \<Longrightarrow> Q 10 \<Longrightarrow> list_all Q (strip_line_indent s)"
  by (induction s rule: strip_line_indent.induct) (auto simp: list_all_dropWhile)

lemma list_all_collapse_newlines: "list_all Q s \<Longrightarrow> Q 10 \<Longrightarrow> list_all Q (collapse_newlines s)"
proof (induction s rule: collapse_newlines.induct)
  case 1
  then show ?case by simp
next
  case (2 c cs)
  show ?case
  proof (cases "3 \<le> length (takeWhile (\<lambda>d. d = 10) (c # cs))")
    case True
    have "list_all Q (dropWhile (\<lambda>d. d = 10) (c # cs))"
      using "2.prems"(1) by (rule list_all_dropWhile)
    with True "2.IH"(1) "2.prems"(2)
    have "list_all Q (collapse_newlines (dropWhile (\<lambda>d. d = 10) (c # cs)))"
      by blast
    with True "2.prems"(2) show ?thesis by (simp del: dropWhile.simps takeWhile.simps)
  next
    case False
    with 2 show ?thesis by simp
  qed
qed

lemma list_all_cleanText:
  assumes "list_all Q s" and "Q 32" and "Q 10"
  shows "list_all Q (cleanText s)"
  unfolding cleanText_def
  by (intro list_all_trim list_all_collapse_newlines list_all_strip_line_indent
      list_all_collapse_blanks list_all_replace_inline_bullets list_all_remove_bullet_lines
      list_all_remove_usagov assms)

lemma cleanText_no_lt: "60 \<notin> set s \<Longrightarrow> 60 \<notin> set (cleanText s)"
  using list_all_cleanText [of "\<lambda>c. c \<noteq> 60" s] by (auto simp: list_all_iff)

lemma cleanText_Nil: "cleanText [] = []"
  by (rule cleanText_spaces) simp

subsection \<open>Sentences keep the text\<close>

lemma dotted_concat_Cons: "ps \<noteq> [] \<Longrightarrow> dotted_concat ((c # p) # ps) = c # dotted_concat (p # ps)"
  by (cases ps) simp_all

lemma dotted_concat_empty_head: "ps \<noteq> [] \<Longrightarrow> dotted_concat ([] # ps) = 46 # dotted_concat ps"
  by (cases ps) simp_all

lemma nonspace_Nil [simp]: "nonspace [] = []"
  by (simp add: nonspace_def)

lemma nonspace_Cons: "nonspace (c # s) = (if is_space c then nonspace s else c # nonspace s)"
  by (simp add: nonspace_def)

lemma nonspace_dropWhile: "nonspace (dropWhile is_space s) = nonspace s"
  by (induction s) (auto simp: nonspace_def)

lemma nonspace_dotted_concat: "nonspace (dotted_concat (split_sentences s)) = nonspace s"
proof (induction s rule: split_sentences.induct)
  case 1
  show ?case by simp
next
  case (2 c cs)
  show ?case
  proof (cases "c = 46 \<and> takeWhile is_space cs \<noteq> []")
    case True
    have ns: "\<not> is_space 46" by (simp add: is_space_def)
    have "split_sentences (c # cs) = [] # split_sentences (dropWhile is_space cs)"
      using True by simp
    then have "dotted_concat (split_sentences (c # cs)) =
               46 # dotted_concat (split_sentences (dropWhile is_space cs))"
      by (simp add: dotted_concat_empty_head del: split_sentences.simps)
    then have "nonspace (dotted_concat (split_sentences (c # cs))) =
               46 # nonspace (dropWhile is_space cs)"
      using True "2.IH"(1) ns by (simp add: nonspace_Cons del: split_sentences.simps)
    with True ns show ?thesis
      by (simp add: nonspace_Cons nonspace_dropWhile del: split_sentences.simps)
  next
    case False
    obtain p ps where sp: "split_sentences cs = p # ps"
      using split_sentences_not_Nil [of cs] by (cases "split_sentences cs") auto
    with False have e: "split_sentences (c # cs) = (c # p) # ps" by auto
    have "dotted_concat ((c # p) # ps) = c # dotted_concat (p # ps)"
      by (cases ps) simp_all
    with e sp have "dotted_concat (split_sentences (c # cs)) = c # dotted_concat (split_sentences cs)"
      by simp
    with False "2.IH"(2) show ?thesis
      by (simp add: nonspace_Cons del: split_sentences.simps)
  qed
qed

lemma nonspace_blank: "trim q = [] \<Longrightarrow> nonspace q = []"
  using nonspace_trim [of q] by (simp add: nonspace_def del: nonspace_trim)

lemma nonspace_dot: "nonspace [46] = [46]"
  by (simp add: nonspace_def is_space_def)

lemma subseq_prepare_sentences:
  "subseq (nonspace (concat (prepare_sentences pieces))) (nonspace (dotted_concat pieces))"
proof (induction pieces rule: dotted_concat.induct)
  case 1
  show ?case by simp
next
  case (2 p)
  show ?case by simp
next
  case (3 p q r)
  show ?case
  proof (cases "trim p = []")
    case True
    then have "nonspace p = []" by (rule nonspace_blank)
    have "prepare_sentences (p # q # r) = prepare_sentences (q # r)"
      using True by simp
    moreover have "nonspace (dotted_concat (p # q # r)) = 46 # nonspace (dotted_concat (q # r))"
      using \<open>nonspace p = []\<close> by (simp add: nonspace_Cons is_space_def)
    ultimately show ?thesis
      using 3 subseq_drop_many [of _ _ "[46]"]
      by (simp del: prepare_sentences.simps dotted_concat.simps)
  next
    case False
    have "prepare_sentences (p # q # r) = (trim p @ [46]) # prepare_sentences (q # r)"
      using False by simp
    then have "nonspace (concat (prepare_sentences (p # q # r))) =
               nonspace p @ 46 # nonspace (concat (prepare_sentences (q # r)))"
      by (simp add: nonspace_Cons is_space_def del: prepare_sentences.simps)
    moreover have "nonspace (dotted_concat (p # q # r)) =
                   nonspace p @ 46 # nonspace (dotted_concat (q # r))"
      by (simp add: nonspace_Cons is_space_def)
    ultimately show ?thesis
      using 3 by (simp add: subseq_append' del: prepare_sentences.simps dotted_concat.simps)
  qed
qed

lemma nonspace_prepare_sentences:
  "list_all (\<lambda>q. trim q \<noteq> []) pieces \<Longrightarrow>
   nonspace (concat (prepare_sentences pieces)) = nonspace (dotted_concat pieces)"
proof (induction pieces rule: dotted_concat.induct)
  case 1
  show ?case by simp
next
  case (2 p)
  then show ?case by simp
next
  case (3 p q r)
  then have "prepare_sentences (p # q # r) = (trim p @ [46]) # prepare_sentences (q # r)"
    by simp
  then have "nonspace (concat (prepare_sentences (p # q # r))) =
             nonspace p @ 46 # nonspace (concat (prepare_sentences (q # r)))"
    by (simp add: nonspace_Cons is_space_def del: prepare_sentences.simps)
  moreover have "nonspace (dotted_concat (p # q # r)) =
                 nonspace p @ 46 # nonspace (dotted_concat (q # r))"
    by (simp add: nonspace_Cons is_space_def)
  ultimately show ?case using 3 by (simp del: prepare_sentences.simps dotted_concat.simps)
qed

lemma subseq_sentences_of: "subseq (nonspace (concat (sentences_of p))) (nonspace p)"
  using subseq_prepare_sentences [of "split_sentences p"]
  by (simp add: sentences_of_def nonspace_dotted_concat)

lemma nonspace_sentences_of:
  "no_blank_sentence p \<Longrightarrow> nonspace (concat (sentences_of p)) = nonspace p"
  by (simp add: sentences_of_def no_blank_sentence_def nonspace_prepare_sentences
      nonspace_dotted_concat)

lemma nonspace_concat_join_sp:
  "nonspace (concat (map join_sp G)) = nonspace (concat (concat G))"
  by (induction G) (simp_all add: nonspace_join_sp)

lemma nonspace_groups:
  "nonspace (concat (map join_sp (groups_of pre post ss))) = nonspace (concat ss)"
  by (simp add: nonspace_concat_join_sp groups_of_concat)

subsection \<open>Paragraphs keep the text\<close>

lemma subseq_concat_split_breaks: "subseq (concat (split_breaks s)) s"
proof (induction s rule: split_breaks.induct)
  case 1
  show ?case by simp
next
  case (2 c cs)
  let ?nl = "c = 10 \<and> 2 \<le> length (takeWhile (\<lambda>d. d = 10) (c # cs))"
  let ?dots = "c = 46 \<and> 3 \<le> length (takeWhile (\<lambda>d. d = 46) (c # cs))"
  have suffix: "subseq x (dropWhile P cs) \<Longrightarrow> subseq x (c # cs)" for x P
    using subseq_drop_many [of x "dropWhile P cs" "c # takeWhile P cs"] by simp
  consider (nl) ?nl | (dots) "\<not> ?nl" ?dots | (none) "\<not> ?nl" "\<not> ?dots"
    by blast
  then show ?case
  proof cases
    case nl
    with "2.IH"(1) have "subseq (concat (split_breaks (dropWhile (\<lambda>d. d = 10) cs)))
                           (dropWhile (\<lambda>d. d = 10) cs)" by blast
    then have "subseq (concat (split_breaks (dropWhile (\<lambda>d. d = 10) cs))) (c # cs)"
      by (rule suffix)
    then show ?thesis by (simp only: split_breaks.simps if_P [OF nl] concat.simps append_Nil)
  next
    case dots
    with "2.IH"(2) have "subseq (concat (split_breaks (dropWhile (\<lambda>d. d = 46) cs)))
                           (dropWhile (\<lambda>d. d = 46) cs)" by blast
    then have "subseq (concat (split_breaks (dropWhile (\<lambda>d. d = 46) cs))) (c # cs)"
      by (rule suffix)
    then show ?thesis
      by (simp only: split_breaks.simps if_not_P [OF dots(1)] if_P [OF dots(2)] concat.simps
          append_Nil)
  next
    case none
    obtain p ps where sp: "split_breaks cs = p # ps"
      by (cases "split_breaks cs") auto
    with none "2.IH"(3) show ?thesis
      by (auto simp del: takeWhile.simps dropWhile.simps)
  qed
qed

lemma three_dots_Cons: "three_dots s \<Longrightarrow> three_dots (c # s)"
  by (cases s rule: three_dots.cases) simp_all

lemma three_dots_dropWhile: "three_dots (dropWhile P s) \<Longrightarrow> three_dots s"
  by (induction s) (auto simp: three_dots_Cons split: if_splits)

lemma three_dots_run: "3 \<le> length (takeWhile (\<lambda>d. d = 46) s) \<Longrightarrow> three_dots s"
  by (cases s rule: three_dots.cases) (auto split: if_splits)

lemma nonspace_dropWhile_newlines: "nonspace (dropWhile (\<lambda>d. d = 10) s) = nonspace s"
  by (induction s) (auto simp: nonspace_def is_space_def)

lemma nonspace_concat_split_breaks:
  "\<not> three_dots s \<Longrightarrow> nonspace (concat (split_breaks s)) = nonspace s"
proof (induction s rule: split_breaks.induct)
  case 1
  show ?case by simp
next
  case (2 c cs)
  let ?nl = "c = 10 \<and> 2 \<le> length (takeWhile (\<lambda>d. d = 10) (c # cs))"
  let ?dots = "c = 46 \<and> 3 \<le> length (takeWhile (\<lambda>d. d = 46) (c # cs))"
  from "2.prems" have tail: "\<not> three_dots cs"
    using three_dots_Cons by blast
  from "2.prems" have nd: "\<not> ?dots"
    using three_dots_run [of "c # cs"] by blast
  show ?case
  proof (cases ?nl)
    case True
    from tail have "\<not> three_dots (dropWhile (\<lambda>d. d = 10) cs)"
      using three_dots_dropWhile by blast
    with True "2.IH"(1) have "nonspace (concat (split_breaks (dropWhile (\<lambda>d. d = 10) cs))) =
                                nonspace (dropWhile (\<lambda>d. d = 10) cs)" by blast
    moreover have "nonspace (c # cs) = nonspace cs"
      using True by (simp add: nonspace_Cons is_space_def)
    ultimately show ?thesis
      by (simp only: split_breaks.simps if_P [OF True] concat.simps append_Nil
          nonspace_dropWhile_newlines)
  next
    case False
    obtain p ps where sp: "split_breaks cs = p # ps"
      by (cases "split_breaks cs") auto
    from False nd "2.IH"(3) tail have "nonspace (concat (split_breaks cs)) = nonspace cs"
      by blast
    with False nd sp show ?thesis
      by (auto simp: nonspace_Cons simp del: takeWhile.simps dropWhile.simps)
  qed
qed

lemma subseq_filter_trim:
  "subseq (nonspace (concat (filter P (map trim ps)))) (nonspace (concat ps))"
proof (induction ps)
  case Nil
  show ?case by simp
next
  case (Cons p ps)
  show ?case
  proof (cases "P (trim p)")
    case True
    with Cons show ?thesis by (simp add: subseq_append')
  next
    case False
    with Cons show ?thesis by (simp add: subseq_drop_many)
  qed
qed

lemma nonspace_filter_trim:
  "list_all (\<lambda>p. P (trim p)) ps \<Longrightarrow>
   nonspace (concat (filter P (map trim ps))) = nonspace (concat ps)"
  by (induction ps) simp_all

lemma subseq_nonspace: "subseq a b \<Longrightarrow> subseq (nonspace a) (nonspace b)"
  by (simp add: nonspace_def)

lemma subseq_segment: "subseq (nonspace (concat (segment up c))) (nonspace c)"
proof (cases "length (split_breaks c) = 1")
  case True
  then show ?thesis
    by (simp add: segment_def sentence_paragraphs_groups nonspace_groups subseq_sentences_of
        del: split_breaks.simps)
next
  case False
  have "subseq (nonspace (concat (filter (\<lambda>p. 15 < length p) (map trim (split_breaks c)))))
          (nonspace (concat (split_breaks c)))"
    by (rule subseq_filter_trim)
  moreover have "subseq (nonspace (concat (split_breaks c))) (nonspace c)"
    by (rule subseq_nonspace) (rule subseq_concat_split_breaks)
  ultimately have "subseq (nonspace (concat (filter (\<lambda>p. 15 < length p)
                     (map trim (split_breaks c))))) (nonspace c)"
    by (rule subseq_order.trans)
  with False show ?thesis
    by (simp add: segment_def del: split_breaks.simps)
qed

text \<open>
  The condition under which the segmentation drops nothing: no run of three dots, and
  every piece of the first split, trimmed, has no blank sentence piece and, when there are
  several pieces, more than 15 characters.
\<close>

lemma split_breaks_single: "length (split_breaks c) = 1 \<Longrightarrow> split_breaks c = [c]"
proof -
  assume a: "length (split_breaks c) = 1"
  obtain seps where s: "length (split_breaks c) = Suc (length seps)"
    "weave (split_breaks c) seps = c"
    using split_breaks_weave [of c] by blast
  from a s(1) have "seps = []" by simp
  moreover from a obtain p where "split_breaks c = [p]"
    by (cases "split_breaks c") auto
  ultimately show ?thesis using s(2) by simp
qed

lemma nonspace_segment:
  assumes "\<not> three_dots c" and "trim c = c"
    and "list_all (\<lambda>p. no_blank_sentence (trim p) \<and>
                        (length (split_breaks c) = 1 \<or> 15 < length (trim p))) (split_breaks c)"
  shows "nonspace (concat (segment up c)) = nonspace c"
proof (cases "length (split_breaks c) = 1")
  case True
  then have "split_breaks c = [c]" by (rule split_breaks_single)
  with assms(2,3) have "no_blank_sentence c" by simp
  with True show ?thesis
    by (simp add: segment_def sentence_paragraphs_groups nonspace_groups nonspace_sentences_of
        del: split_breaks.simps)
next
  case False
  with assms(3) have "list_all (\<lambda>p. 15 < length (trim p)) (split_breaks c)"
    by (simp add: list_all_iff)
  then have "nonspace (concat (filter (\<lambda>p. 15 < length p) (map trim (split_breaks c)))) =
             nonspace (concat (split_breaks c))"
    by (rule nonspace_filter_trim)
  with False assms(1) show ?thesis
    by (simp add: segment_def nonspace_concat_split_breaks del: split_breaks.simps)
qed

subsection \<open>Paragraphs built by the loops have no blank sentence\<close>

lemma good_sentence_not_blank: "good_sentence s \<Longrightarrow> trim s \<noteq> []"
  by (simp add: good_sentence_def trim_unchanged)

lemma no_blank_sentence_join_sp:
  assumes "g \<noteq> []" and "list_all good_sentence g" and "list_all full_stop (butlast g)"
  shows "no_blank_sentence (join_sp g)"
proof -
  have "list_all (\<lambda>q. trim q \<noteq> []) (map butlast (butlast g))"
    using assms(3) by (auto simp: list_all_iff full_stop_def good_sentence_not_blank)
  moreover have "trim (last g) \<noteq> []"
    using assms(1,2) by (auto simp: list_all_iff good_sentence_not_blank)
  ultimately show ?thesis
    unfolding no_blank_sentence_def split_sentences_join_sp [OF assms] by simp
qed

lemma groups_sentences:
  "list_all (\<lambda>g. g \<noteq> [] \<and> list_all good_sentence g \<and> list_all full_stop (butlast g))
     (groups_of pre post (sentences_of p))"
proof -
  let ?G = "groups_of pre post (sentences_of p)"
  have ne: "list_all (\<lambda>g. g \<noteq> []) ?G" by (rule groups_of_not_Nil)
  have "list_all good_sentence (sentences_of p)"
    using sentences_of_ok [of p] by simp
  then have good: "list_all (list_all good_sentence) ?G" by (rule groups_of_elements)
  have "list_all full_stop (butlast (concat ?G))"
    using sentences_of_ok [of p] by (simp add: groups_of_concat)
  with ne have "list_all (\<lambda>g. list_all full_stop (butlast g)) ?G"
    by (rule butlast_concat_groups)
  with ne good show ?thesis by (simp add: list_all_iff)
qed

lemma no_blank_sentence_groups:
  "list_all no_blank_sentence (map join_sp (groups_of pre post (sentences_of p)))"
  using groups_sentences [of pre post p]
  by (auto simp: list_all_iff no_blank_sentence_join_sp)

lemma segment_no_blank:
  assumes "list_all (\<lambda>p. no_blank_sentence (trim p) \<and>
                        (length (split_breaks c) = 1 \<or> 15 < length (trim p))) (split_breaks c)"
  shows "list_all no_blank_sentence (segment up c)"
proof (cases "length (split_breaks c) = 1")
  case True
  then show ?thesis
    by (simp add: segment_def sentence_paragraphs_groups no_blank_sentence_groups
        del: split_breaks.simps)
next
  case False
  with assms show ?thesis
    by (auto simp: segment_def list_all_iff simp del: split_breaks.simps)
qed

lemma final_paragraphs_no_blank:
  "list_all no_blank_sentence (segment up c) \<Longrightarrow>
   list_all no_blank_sentence (final_paragraphs up c)"
  by (simp add: final_paragraphs_def Let_def forceParagraphBreaks_groups no_blank_sentence_groups)

lemma segment_single: "length ps = 1 \<Longrightarrow> concat ps = hd ps"
  by (cases ps) simp_all

lemma subseq_final_paragraphs:
  "subseq (nonspace (concat (final_paragraphs up c))) (nonspace (concat (segment up c)))"
  by (simp add: final_paragraphs_def Let_def forceParagraphBreaks_groups nonspace_groups
      subseq_sentences_of segment_single)

lemma nonspace_final_paragraphs:
  "list_all no_blank_sentence (segment up c) \<Longrightarrow>
   nonspace (concat (final_paragraphs up c)) = nonspace (concat (segment up c))"
proof (cases "length (segment up c) = 1 \<and> 600 < length (hd (segment up c))")
  case True
  assume "list_all no_blank_sentence (segment up c)"
  with True have "no_blank_sentence (hd (segment up c))"
    by (cases "segment up c") simp_all
  with True show ?thesis
    by (simp add: final_paragraphs_def Let_def forceParagraphBreaks_groups nonspace_groups
        nonspace_sentences_of segment_single)
next
  case False
  then show ?thesis by (auto simp: final_paragraphs_def Let_def)
qed

lemma subseq_chunked:
  "subseq (nonspace (concat (concat (map (\<lambda>p. if 700 < length p then paragraph_chunks up p
                                               else [p]) ps))))
          (nonspace (concat ps))"
proof (induction ps)
  case Nil
  show ?case by simp
next
  case (Cons p ps)
  have "subseq (nonspace (concat (if 700 < length p then paragraph_chunks up p else [p])))
          (nonspace p)"
    by (simp add: paragraph_chunks_groups nonspace_groups subseq_sentences_of)
  with Cons show ?case
    by (simp add: list_emb_append_mono del: subseq_append)
qed

lemma nonspace_chunked:
  "list_all no_blank_sentence ps \<Longrightarrow>
   nonspace (concat (concat (map (\<lambda>p. if 700 < length p then paragraph_chunks up p
                                       else [p]) ps))) =
   nonspace (concat ps)"
  by (induction ps)
    (simp_all add: paragraph_chunks_groups nonspace_groups nonspace_sentences_of)

lemma subseq_fragments:
  assumes "segment up c \<noteq> []"
  shows "subseq (nonspace (concat (fragments up c))) (nonspace c)"
proof -
  have "subseq (nonspace (concat (fragments up c))) (nonspace (concat (final_paragraphs up c)))"
    unfolding fragments_no_fallback [OF assms] by (rule subseq_chunked)
  also have "subseq \<dots> (nonspace (concat (segment up c)))"
    by (rule subseq_final_paragraphs)
  also have "subseq \<dots> (nonspace c)"
    by (rule subseq_segment)
  finally show ?thesis .
qed

lemma nonspace_fragments:
  assumes "\<not> three_dots c" and "trim c = c"
    and "list_all (\<lambda>p. no_blank_sentence (trim p) \<and>
                        (length (split_breaks c) = 1 \<or> 15 < length (trim p))) (split_breaks c)"
  shows "segment up c \<noteq> [] \<and> nonspace (concat (fragments up c)) = nonspace c"
proof -
  have nb: "list_all no_blank_sentence (segment up c)"
    using assms(3) by (rule segment_no_blank)
  have eq: "nonspace (concat (segment up c)) = nonspace c"
    using assms by (rule nonspace_segment)
  have ne: "segment up c \<noteq> []"
  proof (cases "length (split_breaks c) = 1")
    case True
    then have "split_breaks c = [c]" by (rule split_breaks_single)
    with assms(2,3) have "no_blank_sentence c" by simp
    then have ss: "sentences_of c \<noteq> []"
      using split_sentences_not_Nil [of c]
      by (cases "split_sentences c") (simp_all add: no_blank_sentence_def sentences_of_def)
    have "groups_of (\<lambda>g s. keyword_start up s) (\<lambda>g. 3 \<le> length g) (sentences_of c) \<noteq> []"
      using groups_of_concat [of "\<lambda>g s. keyword_start up s" "\<lambda>g. 3 \<le> length g" "sentences_of c"]
        ss by auto
    with True show ?thesis
      by (simp add: segment_def sentence_paragraphs_groups del: split_breaks.simps)
  next
    case False
    then obtain p q r where "split_breaks c = p # q # r"
      by (cases "split_breaks c"; cases "tl (split_breaks c)") auto
    with False assms(3) show ?thesis
      by (simp add: segment_def del: split_breaks.simps)
  qed
  have "nonspace (concat (fragments up c)) = nonspace (concat (final_paragraphs up c))"
    unfolding fragments_no_fallback [OF ne]
    using final_paragraphs_no_blank [OF nb] by (rule nonspace_chunked)
  with nonspace_final_paragraphs [OF nb] eq ne show ?thesis by simp
qed

subsection \<open>The visible text of the output\<close>

lemma wf_markup_newlines_to_br:
  "60 \<notin> set c \<Longrightarrow> wf_markup paragraph_tags r \<Longrightarrow>
   wf_markup paragraph_tags (newlines_to_br c @ r)"
proof (induction c)
  case Nil
  then show ?case by (simp add: newlines_to_br_def)
next
  case (Cons a c)
  then have ih: "wf_markup paragraph_tags (newlines_to_br c @ r)" by simp
  show ?case
  proof (cases "a = 10")
    case True
    have "wf_markup paragraph_tags (js ''<br>'' @ newlines_to_br c @ r)"
      by (rule wf_markup.wf_tag [OF paragraph_tag_members(3) ih])
    with True show ?thesis by (simp add: newlines_to_br_def)
  next
    case False
    from Cons.prems(1) have "a \<noteq> 60" by auto
    then have "wf_markup paragraph_tags (a # newlines_to_br c @ r)"
      using ih by (rule wf_markup.wf_char)
    with False show ?thesis by (simp add: newlines_to_br_def)
  qed
qed

lemma strip_tags_newlines_to_br:
  "60 \<notin> set c \<Longrightarrow>
   strip_tags_from False (newlines_to_br c @ r) = filter (\<lambda>x. x \<noteq> 10) c @ strip_tags_from False r"
  by (induction c) (auto simp: newlines_to_br_def js_def)

lemma nonspace_without_newlines: "nonspace (filter (\<lambda>x. x \<noteq> 10) c) = nonspace c"
  by (induction c) (auto simp: nonspace_def is_space_def)

lemma wf_markup_assemble:
  assumes "60 \<notin> set c"
  shows "wf_markup paragraph_tags (assemble up c)"
proof (cases "segment up c = []")
  case True
  have "wf_markup paragraph_tags (js ''</p>'')"
    using wf_markup.wf_tag [OF paragraph_tag_members(2) wf_markup.wf_empty] by simp
  then have "wf_markup paragraph_tags (newlines_to_br c @ js ''</p>'')"
    by (rule wf_markup_newlines_to_br [OF assms])
  then have "wf_markup paragraph_tags (js ''<p>'' @ newlines_to_br c @ js ''</p>'')"
    by (rule wf_markup.wf_tag [OF paragraph_tag_members(1)])
  with True show ?thesis
    by (simp add: assemble_fragments fragments_fallback p_element_def)
next
  case False
  have "list_all (\<lambda>x. x \<noteq> 60) c"
    using assms by (auto simp: list_all_iff)
  then have "list_all (list_all (\<lambda>x. x \<noteq> 60)) (fragments up c)"
    by (rule list_all_fragments) (simp_all add: False)
  then have "list_all (\<lambda>f. 60 \<notin> set f) (fragments up c)"
    by (auto simp: list_all_iff)
  then show ?thesis
    unfolding assemble_fragments by (rule wf_markup_paragraphs)
qed

lemma visible_text_assemble:
  assumes "60 \<notin> set c"
  shows "visible_text (assemble up c) =
           (if segment up c = [] then nonspace c else nonspace (concat (fragments up c)))"
proof (cases "segment up c = []")
  case True
  have a: "strip_tags_from False (js ''<p>'' @ x) = strip_tags_from False x" for x
    by (simp add: js_def)
  have b: "strip_tags_from False (js ''</p>'') = []"
    by (simp add: js_def)
  have "strip_tags (assemble up c) = filter (\<lambda>x. x \<noteq> 10) c"
    unfolding assemble_fragments fragments_fallback [OF True] strip_tags_def
    by (simp add: p_element_def a strip_tags_newlines_to_br [OF assms] b)
  with True show ?thesis
    by (simp add: visible_text_def nonspace_without_newlines)
next
  case False
  have "list_all (\<lambda>x. x \<noteq> 60) c"
    using assms by (auto simp: list_all_iff)
  then have "list_all (list_all (\<lambda>x. x \<noteq> 60)) (fragments up c)"
    by (rule list_all_fragments) (simp_all add: False)
  then have "list_all (\<lambda>f. 60 \<notin> set f) (fragments up c)"
    by (auto simp: list_all_iff)
  then have "strip_tags (assemble up c) = concat (fragments up c)"
    unfolding assemble_fragments by (rule strip_tags_paragraphs)
  with False show ?thesis by (simp add: visible_text_def)
qed

lemma visible_text_plain: "60 \<notin> set c \<Longrightarrow> visible_text c = nonspace c"
  using strip_tags_text [of c "[]"] by (simp add: visible_text_def strip_tags_def)

lemma trim_cleanText: "trim (cleanText s) = cleanText s"
proof (cases "cleanText s = []")
  case True
  then show ?thesis by (simp add: trim_def)
next
  case False
  then have "trimmed (cleanText s)"
    unfolding cleanText_def by (rule trim_trimmed)
  then show ?thesis by (rule trimmed_trim)
qed

lemma visible_text_formatText:
  assumes "60 \<notin> set text"
  shows "visible_text (formatText up text) =
           (if segment up (cleanText text) = [] then nonspace (cleanText text)
            else nonspace (concat (fragments up (cleanText text))))"
proof (cases "text = []")
  case True
  have "segment up [] = []"
    by (simp add: segment_def sentence_paragraphs_groups sentences_of_def groups_of_def
        trim_def)
  with True show ?thesis
    by (simp add: formatText_def cleanText_Nil visible_text_def strip_tags_def)
next
  case False
  have c: "60 \<notin> set (cleanText text)"
    using assms by (rule cleanText_no_lt)
  have "visible_text (formatText up text) = visible_text (assemble up (cleanText text))"
    using False highlight_strip_tags [OF wf_markup_assemble [OF c, of up]]
    by (simp add: formatText_def visible_text_def)
  then show ?thesis
    by (simp only: visible_text_assemble [OF c])
qed

text \<open>
  C1, amended. For a text without \<open><\<close>, the visible text of the output (tags stripped,
  white space left out) is a subsequence of that of the cleaned text: nothing is added, by
  segmentation, re-chunking, fallback or highlighting. It is the whole of it, nothing
  being dropped, in the fallback (no paragraph), and whenever the cleaned text has no run of
  three dots and every piece of the first split, trimmed, has no sentence piece that is
  blank and, when there are several pieces, more than 15 characters.
\<close>

theorem formatText_keeps_visible_text:
  assumes "60 \<notin> set text"
  shows "subseq (visible_text (formatText up text)) (visible_text (cleanText text)) \<and>
         (segment up (cleanText text) = [] \<or>
          \<not> three_dots (cleanText text) \<and>
          list_all (\<lambda>p. no_blank_sentence (trim p) \<and>
                         (length (split_breaks (cleanText text)) = 1 \<or> 15 < length (trim p)))
            (split_breaks (cleanText text))
          \<longrightarrow> visible_text (formatText up text) = visible_text (cleanText text))"
proof -
  let ?c = "cleanText text"
  have c: "60 \<notin> set ?c"
    using assms by (rule cleanText_no_lt)
  have v: "visible_text ?c = nonspace ?c"
    using c by (rule visible_text_plain)
  note f = visible_text_formatText [OF assms, of up]
  have sub: "subseq (visible_text (formatText up text)) (visible_text ?c)"
  proof (cases "segment up ?c = []")
    case True
    with f v show ?thesis by simp
  next
    case False
    with f v subseq_fragments [OF False] show ?thesis by simp
  qed
  have eq: "visible_text (formatText up text) = visible_text ?c"
    if "segment up ?c = [] \<or>
        \<not> three_dots ?c \<and>
        list_all (\<lambda>p. no_blank_sentence (trim p) \<and>
                       (length (split_breaks ?c) = 1 \<or> 15 < length (trim p))) (split_breaks ?c)"
  proof (cases "segment up ?c = []")
    case True
    with f v show ?thesis by simp
  next
    case False
    with that have h: "\<not> three_dots ?c"
      "list_all (\<lambda>p. no_blank_sentence (trim p) \<and>
                     (length (split_breaks ?c) = 1 \<or> 15 < length (trim p))) (split_breaks ?c)"
      by blast+
    from nonspace_fragments [OF h(1) trim_cleanText h(2), of up] False f v
    show ?thesis by simp
  qed
  from sub eq show ?thesis by blast
qed

lemma c1_witness_clean: "cleanText (js ''Rain today. Wind later.'') = js ''Rain today. Wind later.''"
  by (simp add: cleanText_def eval_simps del: eval_del)

lemma c1_witness_pieces:
  "list_all (\<lambda>p. no_blank_sentence (trim p) \<and>
                  (length (split_breaks (js ''Rain today. Wind later.'')) = 1 \<or>
                   15 < length (trim p)))
     (split_breaks (js ''Rain today. Wind later.''))"
  by (simp add: no_blank_sentence_def eval_simps del: eval_del)

theorem formatText_keeps_visible_text_witness:
  "60 \<notin> set (js ''Rain today. Wind later.'') \<and>
   \<not> three_dots (cleanText (js ''Rain today. Wind later.'')) \<and>
   visible_text (formatText toUpperCase_ascii (js ''Rain today. Wind later.'')) =
     js ''Raintoday.Windlater.''"
proof -
  let ?t = "js ''Rain today. Wind later.''"
  have h1: "60 \<notin> set ?t" by (simp add: js_def)
  have h2: "\<not> three_dots (cleanText ?t)"
    unfolding c1_witness_clean by (simp add: js_def)
  have h3: "list_all (\<lambda>p. no_blank_sentence (trim p) \<and>
                          (length (split_breaks (cleanText ?t)) = 1 \<or> 15 < length (trim p)))
              (split_breaks (cleanText ?t))"
    unfolding c1_witness_clean by (rule c1_witness_pieces)
  have v: "visible_text (cleanText ?t) = js ''Raintoday.Windlater.''"
    unfolding c1_witness_clean
    by (simp add: visible_text_def strip_tags_def nonspace_def is_space_eval js_def)
  from formatText_keeps_visible_text [OF h1, of toUpperCase_ascii] h2 h3
  have "visible_text (formatText toUpperCase_ascii ?t) = visible_text (cleanText ?t)"
    by blast
  with h1 h2 v show ?thesis by simp
qed

subsection \<open>The cleaned text has no \<open>usa.gov\<close>\<close>







lemma thinned_refl: "thinned s s"
  by (induction s) (auto intro: thinned.intros)
















subsection \<open>The cleaned text has no bullet line\<close>


lemma line_bullet_not_space: "is_line_bullet c \<Longrightarrow> \<not> is_space c"
  by (auto simp: is_line_bullet_def is_space_def)






















subsection \<open>Inline bullets\<close>



subsection \<open>Blanks\<close>












subsection \<open>Indentation\<close>









subsection \<open>Runs of newlines\<close>







subsection \<open>Cleaning a cleaned text\<close>





end
